theory Spec2Isabelle
  imports Main "HOL-Library.Word" "HOL-Library.Multiset"
begin

section \<open>C integers\<close>

text \<open>
  The two programs (\<^verbatim>\<open>parallel_bzip2.c\<close>, the resident pipeline, and
  \<^verbatim>\<open>parallel_bzip2_mem.c\<close>, the on-demand pipeline) are built for an LP64 target:
  \<^verbatim>\<open>int\<close> has 32 bits, \<^verbatim>\<open>unsigned int\<close> has 32 bits, \<^verbatim>\<open>long\<close> has 64 bits.
  A C integer value is an \<^typ>\<open>int\<close> here and every conversion or operation of the source
  is followed by the reduction into the range of its C type.  Unsigned arithmetic and
  the conversion of a wider value to an unsigned type are reductions modulo \<open>2^32\<close> by the
  language definition.  A signed overflow is left undefined by C; it is modelled as the
  two's complement wrap-around of the target.
\<close>

definition u32 :: "int \<Rightarrow> int" where
  "u32 x = x mod 2 ^ 32"

definition s32 :: "int \<Rightarrow> int" where
  "s32 x = (x + 2 ^ 31) mod 2 ^ 32 - 2 ^ 31"

definition s64 :: "int \<Rightarrow> int" where
  "s64 x = (x + 2 ^ 63) mod 2 ^ 64 - 2 ^ 63"

text \<open>The division of C truncates towards zero.\<close>

definition c_div :: "int \<Rightarrow> int \<Rightarrow> int" where
  "c_div a b = sgn a * sgn b * (\<bar>a\<bar> div \<bar>b\<bar>)"

section \<open>The block plan\<close>

text \<open>\<^verbatim>\<open>int BLOCK_SIZE = block_size_kb * 1024;\<close>\<close>

definition BLOCK_SIZE_of :: "int \<Rightarrow> int" where
  "BLOCK_SIZE_of block_size_kb = s32 (block_size_kb * 1024)"

text \<open>
  \<^verbatim>\<open>int num_blocks = (file_size + BLOCK_SIZE - 1) / BLOCK_SIZE;\<close> with
  \<^verbatim>\<open>long file_size\<close>: the arithmetic is done in \<^verbatim>\<open>long\<close>, the quotient is converted
  to \<^verbatim>\<open>int\<close>.  (A \<^verbatim>\<open>BLOCK_SIZE\<close> of zero is caught before the division, see
  \<open>pipeline_resident\<close> and \<open>pipeline_ondemand\<close>.)
\<close>

definition num_blocks_of :: "int \<Rightarrow> int \<Rightarrow> int" where
  "num_blocks_of file_size BLOCK_SIZE =
     s32 (c_div (s64 (s64 (file_size + BLOCK_SIZE) - 1)) BLOCK_SIZE)"

text \<open>
  Resident pipeline: \<^verbatim>\<open>unsigned int offset = i * BLOCK_SIZE;\<close> (a product of two
  \<^verbatim>\<open>int\<close>, converted to \<^verbatim>\<open>unsigned int\<close>).
\<close>

definition offset_resident :: "int \<Rightarrow> int \<Rightarrow> int" where
  "offset_resident i BLOCK_SIZE = u32 (s32 (i * BLOCK_SIZE))"

text \<open>
  On-demand pipeline: \<^verbatim>\<open>unsigned int offset = (long)i * BLOCK_SIZE;\<close> (a product in
  \<^verbatim>\<open>long\<close>, converted to \<^verbatim>\<open>unsigned int\<close>).
\<close>

definition offset_ondemand :: "int \<Rightarrow> int \<Rightarrow> int" where
  "offset_ondemand i BLOCK_SIZE = u32 (s64 (i * BLOCK_SIZE))"

text \<open>
  Both pipelines:
  \<^verbatim>\<open>
  unsigned int block_size = BLOCK_SIZE;
  if (offset + block_size > file_size) {
      block_size = file_size - offset;
  }
  \<close>
  The sum is an \<^verbatim>\<open>unsigned int\<close> (it wraps), the comparison and the difference are in
  \<^verbatim>\<open>long\<close>, the difference is converted to \<^verbatim>\<open>unsigned int\<close>.
\<close>

definition block_size_at :: "int \<Rightarrow> int \<Rightarrow> int \<Rightarrow> int" where
  "block_size_at file_size BLOCK_SIZE offset =
     (let block_size = u32 BLOCK_SIZE in
      if u32 (offset + block_size) > file_size then u32 (s64 (file_size - offset))
      else block_size)"

text \<open>
  The plan of a pipeline: the (offset, length) pair of every iteration
  \<open>i = 0, \<dots>, num_blocks - 1\<close> of the loop.
\<close>

definition plan_with :: "(int \<Rightarrow> int \<Rightarrow> int) \<Rightarrow> int \<Rightarrow> int \<Rightarrow> (int \<times> int) list" where
  "plan_with off file_size BLOCK_SIZE =
     map (\<lambda>i. (off (int i) BLOCK_SIZE, block_size_at file_size BLOCK_SIZE (off (int i) BLOCK_SIZE)))
       [0 ..< nat (num_blocks_of file_size BLOCK_SIZE)]"

definition plan_resident :: "int \<Rightarrow> int \<Rightarrow> (int \<times> int) list" where
  "plan_resident = plan_with offset_resident"

definition plan_ondemand :: "int \<Rightarrow> int \<Rightarrow> (int \<times> int) list" where
  "plan_ondemand = plan_with offset_ondemand"

text \<open>
  What the specification asks of a plan for an input of \<open>total_length\<close> bytes: the first range
  starts at 0, every range starts where its predecessor ends, the last range ends at
  \<open>total_length\<close>, and the last range has a length in \<open>(0, block_size]\<close>.
\<close>

fun contiguous_from :: "int \<Rightarrow> (int \<times> int) list \<Rightarrow> int option" where
  "contiguous_from pos [] = Some pos"
| "contiguous_from pos ((off, len) # rs) =
     (if off = pos \<and> 0 \<le> len then contiguous_from (pos + len) rs else None)"

definition covers_exactly :: "int \<Rightarrow> int \<Rightarrow> (int \<times> int) list \<Rightarrow> bool" where
  "covers_exactly total_length block_size rs \<longleftrightarrow>
     contiguous_from 0 rs = Some total_length \<and>
     (rs = [] \<or> 0 < snd (last rs) \<and> snd (last rs) \<le> block_size)"


section \<open>Memory\<close>

text \<open>
  The heap is an explicit store.  An allocation is a cell with an identifier and its
  bytes; a pointer is \<open>NULL\<close> (\<open>None\<close>) or names a cell and a byte offset into
  it.  Identifiers are handed out in increasing order and never again, so that every use
  of a stale pointer is visible.  Whether an allocation succeeds is the environment's
  choice and a parameter of each function.  The bytes of a fresh allocation are
  indeterminate in C; they are zero here and no function below reads them before
  writing them.
\<close>

type_synonym byte = "8 word"
type_synonym bytes = "byte list"
type_synonym ptr = "(nat \<times> nat) option"

datatype fault = Division_By_Zero | Invalid_Read | Invalid_Free

record heap =
  cells :: "nat \<Rightarrow> bytes option"
  next_id :: nat

definition empty_heap :: heap where
  "empty_heap = \<lparr>cells = (\<lambda>_. None), next_id = 0\<rparr>"

definition malloc :: "bool \<Rightarrow> nat \<Rightarrow> heap \<Rightarrow> ptr \<times> heap" where
  "malloc ok n h =
     (if ok then
        (Some (next_id h, 0),
         h\<lparr>cells := (cells h)(next_id h \<mapsto> replicate n 0), next_id := Suc (next_id h)\<rparr>)
      else (None, h))"

text \<open>\<^verbatim>\<open>free(NULL)\<close> does nothing; freeing anything but the start of a live cell is a fault.\<close>

definition free :: "ptr \<Rightarrow> heap \<Rightarrow> fault + heap" where
  "free p h =
     (case p of
        None \<Rightarrow> Inr h
      | Some (b, off) \<Rightarrow>
          if off = 0 \<and> cells h b \<noteq> None then Inr (h\<lparr>cells := (cells h)(b := None)\<rparr>)
          else Inl Invalid_Free)"

text \<open>
  \<^verbatim>\<open>realloc\<close> of a live cell: on success the cell keeps its first \<open>n\<close> bytes, on
  failure \<open>NULL\<close> is returned and the cell stays allocated, unchanged.
\<close>

definition realloc :: "bool \<Rightarrow> ptr \<Rightarrow> nat \<Rightarrow> heap \<Rightarrow> fault + (ptr \<times> heap)" where
  "realloc ok p n h =
     (case p of
        None \<Rightarrow> Inr (malloc ok n h)
      | Some (b, off) \<Rightarrow>
          (case cells h b of
             None \<Rightarrow> Inl Invalid_Free
           | Some bs \<Rightarrow>
               if off \<noteq> 0 then Inl Invalid_Free
               else if ok then
                 Inr (Some (b, 0),
                      h\<lparr>cells := (cells h)(b \<mapsto> take n bs @ replicate (n - length bs) 0)\<rparr>)
               else Inr (None, h)))"

text \<open>Reading \<open>n\<close> bytes at a pointer; \<open>None\<close> when the range is not inside a live cell.\<close>

definition load :: "heap \<Rightarrow> ptr \<Rightarrow> nat \<Rightarrow> bytes option" where
  "load h p n =
     (case p of
        None \<Rightarrow> None
      | Some (b, off) \<Rightarrow>
          (case cells h b of
             None \<Rightarrow> None
           | Some bs \<Rightarrow> if off + n \<le> length bs then Some (take n (drop off bs)) else None))"

text \<open>Writing bytes at the start of cell \<open>b\<close> (the callers never write more than it holds).\<close>

definition store :: "heap \<Rightarrow> nat \<Rightarrow> bytes \<Rightarrow> heap" where
  "store h b bs =
     (case cells h b of
        None \<Rightarrow> h
      | Some old \<Rightarrow> h\<lparr>cells := (cells h)(b \<mapsto> bs @ drop (length bs) old)\<rparr>)"

definition ptr_add :: "ptr \<Rightarrow> nat \<Rightarrow> ptr" where
  "ptr_add p k = (case p of None \<Rightarrow> None | Some (b, off) \<Rightarrow> Some (b, off + k))"

section \<open>Files and the environment\<close>

text \<open>
  A file system maps a path to the bytes of the file, if there is one.  It does not
  change during a run except through the writer below.
\<close>

type_synonym fs = "string \<Rightarrow> bytes option"

text \<open>
  What the environment decides for one block: whether the worker's \<^verbatim>\<open>fopen\<close> of the
  input and its \<^verbatim>\<open>malloc\<close> of the block buffer succeed (on-demand pipeline), whether
  \<^verbatim>\<open>malloc\<close> of the output buffer, the compressor's own allocations and the final
  \<^verbatim>\<open>realloc\<close> succeed (\<^verbatim>\<open>compress_block\<close>).
\<close>

record block_env =
  fopen_ok :: bool
  malloc_block_ok :: bool
  malloc_out_ok :: bool
  bz_mem_ok :: bool
  realloc_ok :: bool

text \<open>
  What the environment decides for a run: the \<^verbatim>\<open>fopen\<close> of the input and the
  \<^verbatim>\<open>malloc\<close> of the whole file (resident pipeline), the \<^verbatim>\<open>calloc\<close> of the result
  table, the \<^verbatim>\<open>fopen\<close> of the output, how many bytes the \<^verbatim>\<open>fwrite\<close> of block \<open>i\<close>
  can take (which bounds its return value), how many bytes of the output stream can
  reach the file, and the decisions for every block.
\<close>

record env =
  fopen_input_ok :: bool
  calloc_ok :: bool
  malloc_file_ok :: bool
  fopen_out_ok :: bool
  fwrite_room :: "nat \<Rightarrow> nat"
  flush_room :: nat
  per_block :: "nat \<Rightarrow> block_env"

text \<open>
  \<^verbatim>\<open>
  long get_file_size(const char *filename) {
      struct stat st;
      if (stat(filename, &st) == 0) { return st.st_size; }
      return -1;
  }
  \<close>
\<close>

definition get_file_size :: "fs \<Rightarrow> string \<Rightarrow> int" where
  "get_file_size files filename =
     (case files filename of Some contents \<Rightarrow> int (length contents) | None \<Rightarrow> - 1)"

definition fopen_rb :: "bool \<Rightarrow> fs \<Rightarrow> string \<Rightarrow> bytes option" where
  "fopen_rb ok files filename = (if ok then files filename else None)"

section \<open>The compressor\<close>

text \<open>
  \<^verbatim>\<open>BZ2_bzBuffToBuffCompress\<close> belongs to libbzip2, not to this repository.  The
  bytes it produces for a source buffer (at level 9, verbosity 0, work factor 30) are the
  parameter \<open>bzip\<close>.  The call returns \<open>BZ_OK\<close> and the payload when the payload fits
  the destination, \<open>BZ_OUTBUFF_FULL\<close> when it does not, and \<open>BZ_MEM_ERROR\<close> when the
  library cannot allocate its work space; the destination length is updated on \<open>BZ_OK\<close>
  only.
\<close>

definition BZ_OK :: int where "BZ_OK = 0"
definition BZ_MEM_ERROR :: int where "BZ_MEM_ERROR = - 3"
definition BZ_OUTBUFF_FULL :: int where "BZ_OUTBUFF_FULL = - 8"

definition BZ2_bzBuffToBuffCompress ::
  "(bytes \<Rightarrow> bytes) \<Rightarrow> bool \<Rightarrow> bytes \<Rightarrow> nat \<Rightarrow> int \<times> bytes" where
  "BZ2_bzBuffToBuffCompress bzip mem_ok source destLen =
     (if \<not> mem_ok then (BZ_MEM_ERROR, [])
      else if length (bzip source) \<le> destLen then (BZ_OK, bzip source)
      else (BZ_OUTBUFF_FULL, []))"

record CompressedBlock =
  data :: ptr
  size_c :: int
  original_size :: int

text \<open>
  \<^verbatim>\<open>compress_block\<close> (the same in both programs but for the messages): the result
  is the return value, the block written through \<^verbatim>\<open>output\<close> and the heap.
\<close>

definition compress_block ::
  "(bytes \<Rightarrow> bytes) \<Rightarrow> block_env \<Rightarrow> ptr \<Rightarrow> int \<Rightarrow> CompressedBlock \<Rightarrow> heap
     \<Rightarrow> fault + (int \<times> CompressedBlock \<times> heap)" where
  "compress_block bzip e input input_size output h =
     (let output_buffer_size = u32 (input_size + input_size div 100 + 600);
          (p, h1) = malloc (malloc_out_ok e) (nat output_buffer_size) h;
          output1 = output\<lparr>data := p\<rparr>
      in case p of
           None \<Rightarrow> Inr (- 1, output1, h1)
         | Some (b, _) \<Rightarrow>
            (let output2 = output1\<lparr>size_c := output_buffer_size, original_size := input_size\<rparr>
             in case load h1 input (nat input_size) of
                  None \<Rightarrow> Inl Invalid_Read
                | Some source \<Rightarrow>
                   (let (result, payload) =
                          BZ2_bzBuffToBuffCompress bzip (bz_mem_ok e) source (nat output_buffer_size)
                    in if result \<noteq> BZ_OK then
                         (case free (data output2) h1 of
                            Inl f \<Rightarrow> Inl f
                          | Inr h2 \<Rightarrow> Inr (- 1, output2\<lparr>data := None\<rparr>, h2))
                       else
                         (let h2 = store h1 b payload;
                              output3 = output2\<lparr>size_c := int (length payload)\<rparr>
                          in case realloc (realloc_ok e) (data output3) (nat (size_c output3)) h2 of
                               Inl f \<Rightarrow> Inl f
                             | Inr (q, h3) \<Rightarrow> Inr (0, output3\<lparr>data := q\<rparr>, h3)))))"


section \<open>Writing and releasing the result table\<close>

text \<open>
  The output is written through a \<^verbatim>\<open>FILE\<close> opened by \<^verbatim>\<open>fopen\<close>, a buffered stream:
  the bytes that a \<^verbatim>\<open>fwrite\<close> takes are in the stream, and they are in the file only
  once the stream has been flushed, at the latest by \<^verbatim>\<open>fclose\<close>.

  \<^verbatim>\<open>fwrite(data, 1, size, output)\<close> reads the \<^verbatim>\<open>size\<close> bytes at \<^verbatim>\<open>data\<close>; with a
  \<^verbatim>\<open>size\<close> of 0 it reads nothing and returns 0, whatever \<^verbatim>\<open>data\<close> is.  A \<^verbatim>\<open>data\<close>
  that is \<open>NULL\<close> or does not have \<^verbatim>\<open>size\<close> bytes is a fault otherwise.
\<close>

definition fwrite_source :: "heap \<Rightarrow> ptr \<Rightarrow> nat \<Rightarrow> bytes option" where
  "fwrite_source h p n = (if n = 0 then Some [] else load h p n)"

text \<open>
  \<^verbatim>\<open>fclose(output)\<close> flushes the stream and closes the file.  When not all bytes of
  the stream can reach the file it returns \<^verbatim>\<open>EOF\<close>, and the file holds the bytes that
  did.  The result is the return value and the contents of the file.
\<close>

definition EOF :: int where
  "EOF = - 1"

definition fclose :: "env \<Rightarrow> bytes \<Rightarrow> int \<times> bytes" where
  "fclose e stream =
     (if length stream \<le> flush_room e then (0, stream) else (EOF, take (flush_room e) stream))"

text \<open>
  \<^verbatim>\<open>
  for (int i = 0; i < num_blocks; i++) {
      size_t written = fwrite(blocks[i].data, 1, blocks[i].size, output);
      if (written != blocks[i].size) { fclose(output); return -1; }
  }
  fclose(output);
  return 0;
  \<close>
  \<open>out\<close> is what the stream has taken so far.  \<^verbatim>\<open>fwrite\<close> returns the number of
  bytes the stream takes, as many of the \<^verbatim>\<open>size\<close> bytes as the environment has room
  for.  The loop returns the value that \<^verbatim>\<open>write_bzip2_file\<close> returns and the stream
  at the \<^verbatim>\<open>fclose\<close>, which is called on both ways out (see \<open>write_bzip2_file\<close>).  The
  table has \<open>num_blocks\<close> entries wherever the programs call the loop.
\<close>

function write_loop ::
  "(nat \<Rightarrow> nat) \<Rightarrow> heap \<Rightarrow> CompressedBlock list \<Rightarrow> nat \<Rightarrow> nat \<Rightarrow> bytes \<Rightarrow> fault + (int \<times> bytes)" where
  "write_loop room h blocks num_blocks i out =
     (if i < num_blocks then
        (case fwrite_source h (data (blocks ! i)) (nat (size_c (blocks ! i))) of
           None \<Rightarrow> Inl Invalid_Read
         | Some buf \<Rightarrow>
             (let written = min (length buf) (room i)
              in if int written \<noteq> size_c (blocks ! i) then Inr (- 1, out @ take written buf)
                 else write_loop room h blocks num_blocks (Suc i) (out @ buf)))
      else Inr (0, out))"
  by pat_completeness auto
termination
  by (relation "measure (\<lambda>(room, h, blocks, num_blocks, i, out). num_blocks - i)") auto

text \<open>
  \<^verbatim>\<open>write_bzip2_file\<close>: \<^verbatim>\<open>fopen(output_filename, "wb")\<close> creates the file or empties
  it; when it fails the function returns -1 and no file is touched.  After the loop
  the stream is closed and the value of \<^verbatim>\<open>fclose\<close> is discarded, as the source does at
  both calls.  The result is the return value and the file system.
\<close>

definition write_bzip2_file ::
  "env \<Rightarrow> heap \<Rightarrow> fs \<Rightarrow> string \<Rightarrow> CompressedBlock list \<Rightarrow> int \<Rightarrow> fault + (int \<times> fs)" where
  "write_bzip2_file e h files output_filename blocks num_blocks =
     (if \<not> fopen_out_ok e then Inr (- 1, files)
      else case write_loop (fwrite_room e) h blocks (nat num_blocks) 0 [] of
             Inl f \<Rightarrow> Inl f
           | Inr (r, out) \<Rightarrow>
               (let (closed, contents) = fclose e out
                in Inr (r, files(output_filename \<mapsto> contents))))"

text \<open>
  \<^verbatim>\<open>
  for (int i = 0; i < num_blocks; i++) {
      if (blocks[i].data) { free(blocks[i].data); }
  }
  free(blocks);
  \<close>
  The entries of the table are the list \<open>blocks\<close>; the allocation that holds them is
  \<open>table\<close>.
\<close>

function cleanup_loop :: "CompressedBlock list \<Rightarrow> nat \<Rightarrow> nat \<Rightarrow> heap \<Rightarrow> fault + heap" where
  "cleanup_loop blocks num_blocks i h =
     (if i < num_blocks then
        (if data (blocks ! i) \<noteq> None then
           (case free (data (blocks ! i)) h of
              Inl f \<Rightarrow> Inl f
            | Inr h' \<Rightarrow> cleanup_loop blocks num_blocks (Suc i) h')
         else cleanup_loop blocks num_blocks (Suc i) h)
      else Inr h)"
  by pat_completeness auto
termination
  by (relation "measure (\<lambda>(blocks, num_blocks, i, h). num_blocks - i)") auto

definition cleanup_blocks :: "ptr \<Rightarrow> CompressedBlock list \<Rightarrow> int \<Rightarrow> heap \<Rightarrow> fault + heap" where
  "cleanup_blocks table blocks num_blocks h =
     (case cleanup_loop blocks (nat num_blocks) 0 h of
        Inl f \<Rightarrow> Inl f
      | Inr h' \<Rightarrow> free table h')"

section \<open>The parallel phase\<close>

text \<open>
  The state the iterations share: the entries of the result table, the error counter
  and the heap.
\<close>

record pstate =
  blocks :: "CompressedBlock list"
  compression_errors :: int
  hp :: heap

text \<open>
  \<^verbatim>\<open>#pragma omp parallel for schedule(dynamic)\<close> over \<^verbatim>\<open>for (int i = 0; i < num_blocks; i++)\<close>:
  the runtime hands every index of the loop to some worker, once, and returns when all
  iterations are done.  An iteration writes the entry of its own index, increments the
  counter atomically and uses allocations of its own, so that a run is the iterations
  taken one after the other in some order, the schedule, which depends on the number of
  workers and on timing.  The schedule is a parameter; the theorems quantify over every
  arrangement of the indices \<open>0, \<dots>, num_blocks - 1\<close>.  A fault in an iteration ends
  the process.
\<close>

fun omp_for :: "(nat \<Rightarrow> 's \<Rightarrow> fault + 's) \<Rightarrow> nat list \<Rightarrow> 's \<Rightarrow> fault + 's" where
  "omp_for body [] st = Inr st"
| "omp_for body (i # sched) st =
     (case body i st of Inl f \<Rightarrow> Inl f | Inr st' \<Rightarrow> omp_for body sched st')"

definition is_schedule :: "nat list \<Rightarrow> int \<Rightarrow> bool" where
  "is_schedule sched num_blocks \<longleftrightarrow> mset sched = mset [0 ..< nat num_blocks]"

text \<open>\<^verbatim>\<open>#pragma omp atomic\<close> \<^verbatim>\<open>compression_errors++;\<close> on an \<^verbatim>\<open>int\<close>.\<close>

definition count_error :: "pstate \<Rightarrow> pstate" where
  "count_error st = st\<lparr>compression_errors := s32 (compression_errors st + 1)\<rparr>"

text \<open>
  The loop body of the resident pipeline (\<^verbatim>\<open>parallel_bzip2.c\<close>):
  \<^verbatim>\<open>
  unsigned int offset = i * BLOCK_SIZE;
  unsigned int block_size = BLOCK_SIZE;
  if (offset + block_size > file_size) { block_size = file_size - offset; }
  int result = compress_block(file_data + offset, block_size, &compressed_blocks[i]);
  if (result != 0) { compression_errors++; }
  \<close>
\<close>

definition body_resident ::
  "(bytes \<Rightarrow> bytes) \<Rightarrow> env \<Rightarrow> ptr \<Rightarrow> int \<Rightarrow> int \<Rightarrow> nat \<Rightarrow> pstate \<Rightarrow> fault + pstate" where
  "body_resident bzip e file_data file_size BLOCK_SIZE i st =
     (let offset = offset_resident (int i) BLOCK_SIZE;
          block_size = block_size_at file_size BLOCK_SIZE offset
      in case compress_block bzip (per_block e i) (ptr_add file_data (nat offset)) block_size
                (blocks st ! i) (hp st) of
           Inl f \<Rightarrow> Inl f
         | Inr (result, blk, h') \<Rightarrow>
             (let st' = st\<lparr>blocks := (blocks st)[i := blk], hp := h'\<rparr>
              in Inr (if result \<noteq> 0 then count_error st' else st')))"

text \<open>
  The loop body of the on-demand pipeline (\<^verbatim>\<open>parallel_bzip2_mem.c\<close>):
  \<^verbatim>\<open>
  unsigned int offset = (long)i * BLOCK_SIZE;
  unsigned int block_size = BLOCK_SIZE;
  if (offset + block_size > file_size) { block_size = file_size - offset; }
  FILE *fp = fopen(input_filename, "rb");
  if (!fp) { compression_errors++; continue; }
  unsigned char *block_data = malloc(block_size);
  if (!block_data) { fclose(fp); compression_errors++; continue; }
  fseek(fp, offset, SEEK_SET);
  size_t bytes_read = fread(block_data, 1, block_size, fp);
  fclose(fp);
  if (bytes_read != block_size) { free(block_data); compression_errors++; continue; }
  int result = compress_block(block_data, block_size, &compressed_blocks[i]);
  free(block_data);
  if (result != 0) { compression_errors++; }
  \<close>
  (the progress display that follows has no effect on the table, the counter or the
  files).
\<close>

definition body_ondemand ::
  "(bytes \<Rightarrow> bytes) \<Rightarrow> env \<Rightarrow> fs \<Rightarrow> string \<Rightarrow> int \<Rightarrow> int \<Rightarrow> nat \<Rightarrow> pstate \<Rightarrow> fault + pstate" where
  "body_ondemand bzip e files input_filename file_size BLOCK_SIZE i st =
     (let offset = offset_ondemand (int i) BLOCK_SIZE;
          block_size = block_size_at file_size BLOCK_SIZE offset
      in case fopen_rb (fopen_ok (per_block e i)) files input_filename of
           None \<Rightarrow> Inr (count_error st)
         | Some contents \<Rightarrow>
            (let (block_data, h1) = malloc (malloc_block_ok (per_block e i)) (nat block_size) (hp st)
             in case block_data of
                  None \<Rightarrow> Inr (count_error st)
                | Some (b, _) \<Rightarrow>
                   (let got = take (nat block_size) (drop (nat offset) contents);
                        bytes_read = int (length got);
                        h2 = store h1 b got
                    in if bytes_read \<noteq> block_size then
                         (case free block_data h2 of
                            Inl f \<Rightarrow> Inl f
                          | Inr h3 \<Rightarrow> Inr (count_error (st\<lparr>hp := h3\<rparr>)))
                       else
                         (case compress_block bzip (per_block e i) block_data block_size
                                 (blocks st ! i) h2 of
                            Inl f \<Rightarrow> Inl f
                          | Inr (result, blk, h3) \<Rightarrow>
                              (case free block_data h3 of
                                 Inl f \<Rightarrow> Inl f
                               | Inr h4 \<Rightarrow>
                                   (let st' = st\<lparr>blocks := (blocks st)[i := blk], hp := h4\<rparr>
                                    in Inr (if result \<noteq> 0 then count_error st' else st')))))))"


section \<open>The two programs\<close>

text \<open>
  The ways \<^verbatim>\<open>main\<close> returns, named after the message printed before the return;
  each returns 1, except the last, which returns 0.
\<close>

datatype exit_path =
    Invalid_block_size
  | Usage
  | Error_opening_input_file
  | Memory_allocation_failed
  | Memory_allocation_failed_for_file_data
  | Error_reading_file
  | Compression_failed int
  | Failed_to_write_output_file
  | Completed

fun exit_status :: "exit_path \<Rightarrow> int" where
  "exit_status Completed = 0"
| "exit_status _ = 1"

text \<open>
  \<^verbatim>\<open>getopt\<close> and \<^verbatim>\<open>atoi\<close> belong to the C library.  The command line is given as
  they deliver it: the options in order, a \<^verbatim>\<open>-b\<close> with the \<^verbatim>\<open>int\<close> that
  \<^verbatim>\<open>atoi\<close> returns for its argument, anything else \<^verbatim>\<open>getopt\<close> reports as such, and
  the operands that follow the options.
  \<^verbatim>\<open>
  int block_size_kb = 900;
  while ((opt = getopt(argc, argv, "b:")) != -1) {
      switch (opt) {
          case 'b':
              block_size_kb = atoi(optarg);
              if (block_size_kb <= 0) { fprintf(stderr, "Invalid block size\n"); return 1; }
              break;
          default:
              fprintf(stderr, "Usage: ..."); return 1;
      }
  }
  if (argc - arg_offset != 2) { fprintf(stderr, "Usage: ..."); return 1; }
  \<close>
\<close>

datatype opt = Opt_b int | Opt_other

record config =
  block_size_kb :: int
  input_path :: string
  output_path :: string

fun parse_opts :: "opt list \<Rightarrow> int \<Rightarrow> exit_path + int" where
  "parse_opts [] kb = Inr kb"
| "parse_opts (Opt_b v # opts) kb =
     (if v \<le> 0 then Inl Invalid_block_size else parse_opts opts v)"
| "parse_opts (Opt_other # opts) kb = Inl Usage"

definition parse_args :: "opt list \<Rightarrow> string list \<Rightarrow> exit_path + config" where
  "parse_args opts operands =
     (case parse_opts opts 900 of
        Inl x \<Rightarrow> Inl x
      | Inr kb \<Rightarrow>
          (case operands of
             [inp, outp] \<Rightarrow> Inr \<lparr>block_size_kb = kb, input_path = inp, output_path = outp\<rparr>
           | _ \<Rightarrow> Inl Usage))"

text \<open>
  \<^verbatim>\<open>calloc(num_blocks, sizeof(CompressedBlock))\<close>: a negative \<^verbatim>\<open>int\<close> becomes a
  \<^verbatim>\<open>size_t\<close> above \<open>2^63\<close>, the product with the entry size of 16 bytes does not fit
  and \<^verbatim>\<open>calloc\<close> returns \<open>NULL\<close>.
\<close>

definition calloc :: "bool \<Rightarrow> int \<Rightarrow> nat \<Rightarrow> heap \<Rightarrow> ptr \<times> heap" where
  "calloc ok nmemb sz h = (if nmemb < 0 then (None, h) else malloc ok (nat nmemb * sz) h)"

definition zero_block :: CompressedBlock where
  "zero_block = \<lparr>data = None, size_c = 0, original_size = 0\<rparr>"

text \<open>
  Both programs, from the end of the parallel loop on (the statistics printed before
  the final clean-up have no effect on the files or the heap).  The resident pipeline
  frees \<^verbatim>\<open>file_data\<close> after each \<^verbatim>\<open>cleanup_blocks\<close>; the on-demand pipeline has no such
  buffer.
  \<^verbatim>\<open>
  if (compression_errors > 0) {
      cleanup_blocks(compressed_blocks, num_blocks); [free(file_data);] return 1;
  }
  if (write_bzip2_file(output_filename, compressed_blocks, num_blocks) != 0) {
      cleanup_blocks(compressed_blocks, num_blocks); [free(file_data);] return 1;
  }
  cleanup_blocks(compressed_blocks, num_blocks); [free(file_data);]
  return 0;
  \<close>
\<close>

definition release_resident ::
  "ptr \<Rightarrow> ptr \<Rightarrow> int \<Rightarrow> pstate \<Rightarrow> exit_path \<Rightarrow> fs \<Rightarrow> fault + (exit_path \<times> fs \<times> heap)" where
  "release_resident table file_data num_blocks st x files =
     (case cleanup_blocks table (blocks st) num_blocks (hp st) of
        Inl f \<Rightarrow> Inl f
      | Inr h1 \<Rightarrow> (case free file_data h1 of Inl f \<Rightarrow> Inl f | Inr h2 \<Rightarrow> Inr (x, files, h2)))"

definition after_loop_resident ::
  "env \<Rightarrow> fs \<Rightarrow> string \<Rightarrow> ptr \<Rightarrow> ptr \<Rightarrow> int \<Rightarrow> pstate \<Rightarrow> fault + (exit_path \<times> fs \<times> heap)" where
  "after_loop_resident e files output_filename table file_data num_blocks st =
     (if compression_errors st > 0 then
        release_resident table file_data num_blocks st
          (Compression_failed (compression_errors st)) files
      else
        (case write_bzip2_file e (hp st) files output_filename (blocks st) num_blocks of
           Inl f \<Rightarrow> Inl f
         | Inr (r, files') \<Rightarrow>
             if r \<noteq> 0 then
               release_resident table file_data num_blocks st Failed_to_write_output_file files'
             else release_resident table file_data num_blocks st Completed files'))"

definition release_ondemand ::
  "ptr \<Rightarrow> int \<Rightarrow> pstate \<Rightarrow> exit_path \<Rightarrow> fs \<Rightarrow> fault + (exit_path \<times> fs \<times> heap)" where
  "release_ondemand table num_blocks st x files =
     (case cleanup_blocks table (blocks st) num_blocks (hp st) of
        Inl f \<Rightarrow> Inl f
      | Inr h1 \<Rightarrow> Inr (x, files, h1))"

definition after_loop_ondemand ::
  "env \<Rightarrow> fs \<Rightarrow> string \<Rightarrow> ptr \<Rightarrow> int \<Rightarrow> pstate \<Rightarrow> fault + (exit_path \<times> fs \<times> heap)" where
  "after_loop_ondemand e files output_filename table num_blocks st =
     (if compression_errors st > 0 then
        release_ondemand table num_blocks st (Compression_failed (compression_errors st)) files
      else
        (case write_bzip2_file e (hp st) files output_filename (blocks st) num_blocks of
           Inl f \<Rightarrow> Inl f
         | Inr (r, files') \<Rightarrow>
             if r \<noteq> 0 then release_ondemand table num_blocks st Failed_to_write_output_file files'
             else release_ondemand table num_blocks st Completed files'))"

text \<open>
  The resident pipeline, \<^verbatim>\<open>main\<close> of \<^verbatim>\<open>parallel_bzip2.c\<close> after the command line:
  open the input, take its size, allocate the table, load the whole file, run the
  loop, then write and release.  The result is the way \<^verbatim>\<open>main\<close> returns, the file
  system and the heap at that point, or the fault that ended the process (the division
  by a \<^verbatim>\<open>BLOCK_SIZE\<close> of zero traps).
\<close>

definition parallel_phase_resident ::
  "(bytes \<Rightarrow> bytes) \<Rightarrow> env \<Rightarrow> nat list \<Rightarrow> ptr \<Rightarrow> int \<Rightarrow> int \<Rightarrow> pstate \<Rightarrow> fault + pstate" where
  "parallel_phase_resident bzip e sched file_data file_size BLOCK_SIZE st =
     omp_for (body_resident bzip e file_data file_size BLOCK_SIZE) sched st"

definition pipeline_resident ::
  "(bytes \<Rightarrow> bytes) \<Rightarrow> env \<Rightarrow> nat list \<Rightarrow> config \<Rightarrow> fs \<Rightarrow> fault + (exit_path \<times> fs \<times> heap)" where
  "pipeline_resident bzip e sched cfg files =
     (let BLOCK_SIZE = BLOCK_SIZE_of (block_size_kb cfg)
      in case fopen_rb (fopen_input_ok e) files (input_path cfg) of
           None \<Rightarrow> Inr (Error_opening_input_file, files, empty_heap)
         | Some contents \<Rightarrow>
            (let file_size = get_file_size files (input_path cfg)
             in if BLOCK_SIZE = 0 then Inl Division_By_Zero
                else
                 (let num_blocks = num_blocks_of file_size BLOCK_SIZE;
                      (table, h1) = calloc (calloc_ok e) num_blocks 16 empty_heap
                  in case table of
                       None \<Rightarrow> Inr (Memory_allocation_failed, files, h1)
                     | Some _ \<Rightarrow>
                        (let (file_data, h2) = malloc (malloc_file_ok e) (nat file_size) h1
                         in case file_data of
                              None \<Rightarrow>
                                (case free table h2 of
                                   Inl f \<Rightarrow> Inl f
                                 | Inr h3 \<Rightarrow> Inr (Memory_allocation_failed_for_file_data, files, h3))
                            | Some (fb, _) \<Rightarrow>
                               (let got = take (nat file_size) contents;
                                    bytes_read = int (length got);
                                    h3 = store h2 fb got
                                in if bytes_read \<noteq> file_size then
                                     (case free file_data h3 of
                                        Inl f \<Rightarrow> Inl f
                                      | Inr h4 \<Rightarrow>
                                          (case free table h4 of
                                             Inl f \<Rightarrow> Inl f
                                           | Inr h5 \<Rightarrow> Inr (Error_reading_file, files, h5)))
                                   else
                                     (case parallel_phase_resident bzip e sched file_data file_size
                                             BLOCK_SIZE
                                             \<lparr>blocks = replicate (nat num_blocks) zero_block,
                                              compression_errors = 0, hp = h3\<rparr> of
                                        Inl f \<Rightarrow> Inl f
                                      | Inr st \<Rightarrow>
                                          after_loop_resident e files (output_path cfg) table
                                            file_data num_blocks st))))))"

text \<open>
  The on-demand pipeline, \<^verbatim>\<open>main\<close> of \<^verbatim>\<open>parallel_bzip2_mem.c\<close> after the command
  line: take the size of the input (without opening it), allocate the table, run the
  loop, then write and release.
\<close>

definition parallel_phase_ondemand ::
  "(bytes \<Rightarrow> bytes) \<Rightarrow> env \<Rightarrow> nat list \<Rightarrow> fs \<Rightarrow> string \<Rightarrow> int \<Rightarrow> int \<Rightarrow> pstate \<Rightarrow> fault + pstate" where
  "parallel_phase_ondemand bzip e sched files input_filename file_size BLOCK_SIZE st =
     omp_for (body_ondemand bzip e files input_filename file_size BLOCK_SIZE) sched st"

definition pipeline_ondemand ::
  "(bytes \<Rightarrow> bytes) \<Rightarrow> env \<Rightarrow> nat list \<Rightarrow> config \<Rightarrow> fs \<Rightarrow> fault + (exit_path \<times> fs \<times> heap)" where
  "pipeline_ondemand bzip e sched cfg files =
     (let BLOCK_SIZE = BLOCK_SIZE_of (block_size_kb cfg);
          file_size = get_file_size files (input_path cfg)
      in if BLOCK_SIZE = 0 then Inl Division_By_Zero
         else
          (let num_blocks = num_blocks_of file_size BLOCK_SIZE;
               (table, h1) = calloc (calloc_ok e) num_blocks 16 empty_heap
           in case table of
                None \<Rightarrow> Inr (Memory_allocation_failed, files, h1)
              | Some _ \<Rightarrow>
                 (case parallel_phase_ondemand bzip e sched files (input_path cfg) file_size
                         BLOCK_SIZE
                         \<lparr>blocks = replicate (nat num_blocks) zero_block,
                          compression_errors = 0, hp = h1\<rparr> of
                    Inl f \<Rightarrow> Inl f
                  | Inr st \<Rightarrow>
                      after_loop_ondemand e files (output_path cfg) table num_blocks st)))"

definition main_resident ::
  "(bytes \<Rightarrow> bytes) \<Rightarrow> env \<Rightarrow> nat list \<Rightarrow> opt list \<Rightarrow> string list \<Rightarrow> fs
     \<Rightarrow> fault + (exit_path \<times> fs \<times> heap)" where
  "main_resident bzip e sched opts operands files =
     (case parse_args opts operands of
        Inl x \<Rightarrow> Inr (x, files, empty_heap)
      | Inr cfg \<Rightarrow> pipeline_resident bzip e sched cfg files)"

definition main_ondemand ::
  "(bytes \<Rightarrow> bytes) \<Rightarrow> env \<Rightarrow> nat list \<Rightarrow> opt list \<Rightarrow> string list \<Rightarrow> fs
     \<Rightarrow> fault + (exit_path \<times> fs \<times> heap)" where
  "main_ondemand bzip e sched opts operands files =
     (case parse_args opts operands of
        Inl x \<Rightarrow> Inr (x, files, empty_heap)
      | Inr cfg \<Rightarrow> pipeline_ondemand bzip e sched cfg files)"

section \<open>What a block attempt leaves behind\<close>

text \<open>
  The definitions of this section do not model code; they state, as functions of the
  inputs alone, what the loop bodies above compute, and the proofs below show that the
  bodies do compute it from every heap they can meet.

  A heap is well formed when no cell at or beyond \<open>next_id\<close> is allocated.
\<close>

definition heap_ok :: "heap \<Rightarrow> bool" where
  "heap_ok h \<longleftrightarrow> (\<forall>b. next_id h \<le> b \<longrightarrow> cells h b = None)"

text \<open>
  What \<^verbatim>\<open>fwrite(blk.data, 1, blk.size, output)\<close> would read: the \<^verbatim>\<open>size\<close> bytes at
  \<^verbatim>\<open>data\<close>, if there are such bytes.  The view of an entry is this payload with the
  two size fields: everything of an entry but the address of its buffer.
\<close>

definition payload_of :: "heap \<Rightarrow> CompressedBlock \<Rightarrow> bytes option" where
  "payload_of h blk = load h (data blk) (nat (size_c blk))"

type_synonym entry_view = "bytes option \<times> int \<times> int"

definition view :: "heap \<Rightarrow> CompressedBlock \<Rightarrow> entry_view" where
  "view h blk = (payload_of h blk, size_c blk, original_size blk)"

definition zero_view :: entry_view where
  "zero_view = (None, 0, 0)"

text \<open>
  \<^verbatim>\<open>compress_block\<close> on a zeroed entry and a source buffer: whether it reports a
  failure, and the view of the entry afterwards.
\<close>

definition compressed :: "(bytes \<Rightarrow> bytes) \<Rightarrow> block_env \<Rightarrow> bytes \<Rightarrow> bool \<times> entry_view" where
  "compressed bzip be source =
     (let n = int (length source); cap = u32 (n + n div 100 + 600) in
      if \<not> malloc_out_ok be then (True, (None, 0, 0))
      else if \<not> bz_mem_ok be \<or> nat cap < length (bzip source) then (True, (None, cap, n))
      else if realloc_ok be then (False, (Some (bzip source), int (length (bzip source)), n))
      else (False, (None, int (length (bzip source)), n)))"

text \<open>One iteration of the on-demand loop, and one of the resident loop (which faults
  when the block reaches beyond the loaded file and the output buffer was allocated).\<close>

definition attempt_ondemand ::
  "(bytes \<Rightarrow> bytes) \<Rightarrow> env \<Rightarrow> fs \<Rightarrow> string \<Rightarrow> int \<Rightarrow> int \<Rightarrow> nat \<Rightarrow> bool \<times> entry_view" where
  "attempt_ondemand bzip e files inp file_size B i =
     (let offset = offset_ondemand (int i) B;
          block_size = block_size_at file_size B offset
      in case fopen_rb (fopen_ok (per_block e i)) files inp of
           None \<Rightarrow> (True, zero_view)
         | Some contents \<Rightarrow>
             if \<not> malloc_block_ok (per_block e i) then (True, zero_view)
             else (let got = take (nat block_size) (drop (nat offset) contents)
                   in if int (length got) \<noteq> block_size then (True, zero_view)
                      else compressed bzip (per_block e i) got))"

definition attempt_resident ::
  "(bytes \<Rightarrow> bytes) \<Rightarrow> env \<Rightarrow> bytes \<Rightarrow> int \<Rightarrow> int \<Rightarrow> nat \<Rightarrow> fault + (bool \<times> entry_view)" where
  "attempt_resident bzip e contents file_size B i =
     (let offset = offset_resident (int i) B;
          block_size = block_size_at file_size B offset
      in if nat offset + nat block_size \<le> length contents then
           Inr (compressed bzip (per_block e i) (take (nat block_size) (drop (nat offset) contents)))
         else if malloc_out_ok (per_block e i) then Inl Invalid_Read
         else Inr (True, zero_view))"

text \<open>
  How a heap grows during an iteration: the cells that existed stay as they were, and
  the buffer of the new entry, if it has one, is a new live cell.
\<close>

definition extends :: "heap \<Rightarrow> heap \<Rightarrow> bool" where
  "extends h h' \<longleftrightarrow> heap_ok h' \<and> next_id h \<le> next_id h' \<and> (\<forall>b < next_id h. cells h' b = cells h b)"

definition fresh_or_null :: "heap \<Rightarrow> heap \<Rightarrow> ptr \<Rightarrow> bool" where
  "fresh_or_null h h' p \<longleftrightarrow>
     (case p of
        None \<Rightarrow> True
      | Some (b, off) \<Rightarrow> off = 0 \<and> next_id h \<le> b \<and> b < next_id h' \<and> cells h' b \<noteq> None)"

definition recorded :: "pstate \<Rightarrow> nat \<Rightarrow> bool \<Rightarrow> CompressedBlock \<Rightarrow> heap \<Rightarrow> pstate" where
  "recorded st i failed blk h' =
     st\<lparr>blocks := (blocks st)[i := blk], hp := h',
        compression_errors := (if failed then s32 (compression_errors st + 1) else compression_errors st)\<rparr>"

definition step_ok :: "pstate \<Rightarrow> nat \<Rightarrow> bool \<times> entry_view \<Rightarrow> pstate \<Rightarrow> bool" where
  "step_ok st i a st' \<longleftrightarrow>
     (\<exists>blk h'. st' = recorded st i (fst a) blk h' \<and> view h' blk = snd a
        \<and> extends (hp st) h' \<and> fresh_or_null (hp st) h' (data blk))"

text \<open>
  The invariant of the parallel loop after the iterations \<open>D\<close>, started on the heap
  \<open>h0\<close>: the entries of \<open>D\<close> hold what their attempts give, the others are still zero,
  every buffer is a live cell allocated during the loop and owned by one entry, and the
  counter is the number of failed attempts.
\<close>

definition failures :: "(nat \<Rightarrow> fault + bool \<times> entry_view) \<Rightarrow> nat set \<Rightarrow> nat set" where
  "failures att D = {i \<in> D. \<exists>v. att i = Inr (True, v)}"

definition table_inv ::
  "heap \<Rightarrow> (nat \<Rightarrow> fault + bool \<times> entry_view) \<Rightarrow> nat \<Rightarrow> nat set \<Rightarrow> pstate \<Rightarrow> bool" where
  "table_inv h0 att n D st \<longleftrightarrow>
     extends h0 (hp st) \<and> length (blocks st) = n \<and> D \<subseteq> {..<n}
     \<and> (\<forall>i \<in> D. \<exists>a. att i = Inr a \<and> view (hp st) (blocks st ! i) = snd a)
     \<and> (\<forall>i < n. i \<notin> D \<longrightarrow> blocks st ! i = zero_block)
     \<and> (\<forall>i < n. \<forall>b off. data (blocks st ! i) = Some (b, off) \<longrightarrow>
            off = 0 \<and> cells (hp st) b \<noteq> None \<and> next_id h0 \<le> b
            \<and> (\<forall>j < n. j \<noteq> i \<longrightarrow> data (blocks st ! j) \<noteq> Some (b, off)))
     \<and> compression_errors st = int (card (failures att D))"

definition body_meets ::
  "(nat \<Rightarrow> pstate \<Rightarrow> fault + pstate) \<Rightarrow> (nat \<Rightarrow> fault + bool \<times> entry_view) \<Rightarrow> heap \<Rightarrow> nat \<Rightarrow> bool" where
  "body_meets body att h0 n \<longleftrightarrow>
     (\<forall>i st. i < n \<and> extends h0 (hp st) \<and> length (blocks st) = n \<and> blocks st ! i = zero_block \<longrightarrow>
        (case att i of
           Inl f \<Rightarrow> body i st = Inl f
         | Inr a \<Rightarrow> (\<exists>st'. body i st = Inr st' \<and> step_ok st i a st')))"




section \<open>Example inputs\<close>

text \<open>
  A stand-in for the compressor, an environment in which every call succeeds and one
  in which the compressor fails on block 1, an input of 1025 bytes (two blocks with
  \<^verbatim>\<open>-b 1\<close>), and heaps and a result table to run single functions on.
\<close>

definition toy_bzip :: "bytes \<Rightarrow> bytes" where
  "toy_bzip source = 66 # 90 # take 1 source"

definition block_all_ok :: block_env where
  "block_all_ok = \<lparr>fopen_ok = True, malloc_block_ok = True, malloc_out_ok = True,
     bz_mem_ok = True, realloc_ok = True\<rparr>"

definition env_all_ok :: env where
  "env_all_ok = \<lparr>fopen_input_ok = True, calloc_ok = True, malloc_file_ok = True,
     fopen_out_ok = True, fwrite_room = (\<lambda>_. 4096), flush_room = 4096, per_block = (\<lambda>_. block_all_ok)\<rparr>"

definition env_block1_fails :: env where
  "env_block1_fails = env_all_ok\<lparr>per_block :=
     (\<lambda>i. if i = 1 then block_all_ok\<lparr>bz_mem_ok := False\<rparr> else block_all_ok)\<rparr>"

definition example_files :: fs where
  "example_files = (\<lambda>_. None)(''in'' \<mapsto> replicate 1025 7)"

definition example_config :: config where
  "example_config = \<lparr>block_size_kb = 1, input_path = ''in'', output_path = ''out''\<rparr>"

definition heap_with_input :: heap where
  "heap_with_input = \<lparr>cells = (\<lambda>_. None)(0 \<mapsto> [1, 2, 3]), next_id = 1\<rparr>"

definition example_heap :: heap where
  "example_heap = \<lparr>cells = (\<lambda>_. None)(0 \<mapsto> [], 1 \<mapsto> replicate 1025 7), next_id = 2\<rparr>"

definition example_table :: "CompressedBlock list" where
  "example_table = [\<lparr>data = Some (0, 0), size_c = 2, original_size = 5\<rparr>,
                    \<lparr>data = Some (1, 0), size_c = 1, original_size = 3\<rparr>]"

definition example_table_heap :: heap where
  "example_table_heap = \<lparr>cells = (\<lambda>_. None)(0 \<mapsto> [1, 2], 1 \<mapsto> [3]), next_id = 2\<rparr>"

section \<open>Integer conversions\<close>

lemma u32_s32 [simp]: "u32 (s32 x) = u32 x"
  by (simp add: u32_def s32_def mod_diff_left_eq)

lemma u32_s64 [simp]: "u32 (s64 x) = u32 x"
proof -
  let ?y = "x + 2 ^ 63"
  have d: "(2::int) ^ 32 dvd 2 ^ 64" by (rule le_imp_power_dvd) simp
  have z: "(2::int) ^ 63 mod 2 ^ 32 = 0" by simp
  have "(?y mod 2 ^ 64 - 2 ^ 63) mod 2 ^ 32 = (?y mod 2 ^ 64 mod 2 ^ 32 - 2 ^ 63 mod 2 ^ 32) mod 2 ^ 32"
    by (rule mod_diff_eq [symmetric])
  also have "\<dots> = (?y mod 2 ^ 32) mod 2 ^ 32"
    unfolding mod_mod_cancel [OF d] z by simp
  also have "\<dots> = (x mod 2 ^ 32 + 2 ^ 63 mod 2 ^ 32) mod 2 ^ 32"
    unfolding mod_mod_trivial by (rule mod_add_eq [symmetric])
  also have "\<dots> = x mod 2 ^ 32"
    unfolding z by simp
  finally show ?thesis
    by (simp only: u32_def s64_def)
qed

lemma u32_id: "0 \<le> x \<Longrightarrow> x < 2 ^ 32 \<Longrightarrow> u32 x = x"
  by (simp add: u32_def)

lemma s64_id: "- (2 ^ 63) \<le> x \<Longrightarrow> x < 2 ^ 63 \<Longrightarrow> s64 x = x"
  by (simp add: s64_def)

lemma s32_id: "- (2 ^ 31) \<le> x \<Longrightarrow> x < 2 ^ 31 \<Longrightarrow> s32 x = x"
  by (simp add: s32_def)

lemma c_div_nonneg: "0 \<le> a \<Longrightarrow> 0 < b \<Longrightarrow> c_div a b = a div b"
  by (cases "a = 0") (simp_all add: c_div_def)

lemma offsets_agree: "offset_resident i B = offset_ondemand i B"
  by (simp add: offset_resident_def offset_ondemand_def)

subsection \<open>The plan where no 32-bit quantity wraps\<close>

lemma num_blocks_small:
  assumes "0 \<le> fs" "2 \<le> B" "fs + B \<le> 2 ^ 32"
  shows "num_blocks_of fs B = (fs + B - 1) div B"
proof -
  have a: "s64 (s64 (fs + B) - 1) = fs + B - 1"
    using assms by (simp add: s64_id)
  have q0: "0 \<le> (fs + B - 1) div B"
    using assms by (simp add: pos_imp_zdiv_nonneg_iff)
  have "(fs + B - 1) div B \<le> (fs + B - 1) div 2"
    using assms by (intro zdiv_mono2) auto
  then have q1: "(fs + B - 1) div B < 2 ^ 31"
    using assms by simp
  show ?thesis
    using assms q0 q1 by (simp add: num_blocks_of_def a c_div_nonneg s32_id)
qed

lemma block_below_total:
  assumes "0 < (B::int)" "0 \<le> i" "i < (fs + B - 1) div B"
  shows "i * B < fs"
proof -
  have "i + 1 \<le> (fs + B - 1) div B" using assms by simp
  then have "(i + 1) * B \<le> ((fs + B - 1) div B) * B"
    using assms(1) by (intro mult_right_mono) auto
  also have "\<dots> \<le> fs + B - 1"
  proof -
    have "fs + B - 1 = ((fs + B - 1) div B) * B + (fs + B - 1) mod B" by simp
    moreover have "0 \<le> (fs + B - 1) mod B" using assms(1) by simp
    ultimately show ?thesis by linarith
  qed
  finally show ?thesis by (simp add: algebra_simps)
qed

lemma blocks_reach_total:
  assumes "0 < (B::int)"
  shows "fs \<le> ((fs + B - 1) div B) * B"
proof -
  have "fs + B - 1 = ((fs + B - 1) div B) * B + (fs + B - 1) mod B" by simp
  moreover have "(fs + B - 1) mod B < B" using assms by simp
  ultimately show ?thesis by linarith
qed

lemma offset_small:
  assumes "0 < (B::int)" "0 \<le> i" "i * B < 2 ^ 32"
  shows "offset_ondemand i B = i * B"
proof -
  have "0 \<le> i * B" using assms by simp
  then show ?thesis
    using assms by (simp add: offset_ondemand_def u32_id)
qed

lemma block_size_small:
  assumes "0 < B" "0 \<le> off" "off + B < 2 ^ 32" "off < fs" "fs < 2 ^ 32"
  shows "block_size_at fs B off = (if off + B > fs then fs - off else B)"
  using assms by (simp add: block_size_at_def Let_def u32_id)

lemma contiguous_plan:
  assumes B: "0 < (B::int)" and le: "fs + B \<le> 2 ^ 32" and fs: "0 \<le> fs"
    and n: "int n = (fs + B - 1) div B"
  shows "k < n \<Longrightarrow> contiguous_from (int k * B)
      (map (\<lambda>i. (offset_ondemand (int i) B, block_size_at fs B (offset_ondemand (int i) B))) [k ..< n]) = Some fs"
proof (induction "n - k" arbitrary: k)
  case 0
  then show ?case by simp
next
  case (Suc d)
  have kn: "int k < (fs + B - 1) div B" using Suc.prems n by simp
  have lt: "int k * B < fs" using block_below_total [OF B _ kn] by simp
  have off: "offset_ondemand (int k) B = int k * B"
    using lt le B by (intro offset_small) auto
  have len: "block_size_at fs B (int k * B) = (if int k * B + B > fs then fs - int k * B else B)"
    using lt le B by (intro block_size_small) auto
  show ?case
  proof (cases "Suc k < n")
    case True
    then have "int (Suc k) < (fs + B - 1) div B" using n by linarith
    from block_below_total [OF B _ this] have "int (Suc k) * B < fs" by simp
    then have nle: "\<not> int k * B + B > fs" by (simp add: algebra_simps)
    have "d = n - Suc k" using Suc.hyps(2) by simp
    from Suc.hyps(1) [OF this True]
    have ih: "contiguous_from (int (Suc k) * B)
      (map (\<lambda>i. (offset_ondemand (int i) B, block_size_at fs B (offset_ondemand (int i) B))) [Suc k ..< n]) = Some fs" .
    have "int (Suc k) * B = int k * B + B" by (simp add: algebra_simps)
    with ih nle show ?thesis
      using Suc.prems B by (simp add: upt_conv_Cons off len)
  next
    case False
    then have e: "n = Suc k" using Suc.prems by simp
    have "fs \<le> int n * B" using blocks_reach_total [OF B, of fs] n by simp
    then have "fs \<le> int k * B + B" using e by (simp add: algebra_simps)
    then show ?thesis
      using lt B by (auto simp: e off len)
  qed
qed


lemma plan_last_length:
  assumes B: "0 < (B::int)" and le: "fs + B \<le> 2 ^ 32" and fs: "0 < fs"
    and n: "int n = (fs + B - 1) div B"
  shows "0 < n" and "0 < block_size_at fs B (offset_ondemand (int (n - 1)) B)"
    and "block_size_at fs B (offset_ondemand (int (n - 1)) B) \<le> B"
proof -
  have "0 < (fs + B - 1) div B"
    using B fs by (simp add: pos_imp_zdiv_pos_iff)
  then show n0: "0 < n" using n by simp
  then have "int (n - 1) < (fs + B - 1) div B" using n by simp
  from block_below_total [OF B _ this] have lt: "int (n - 1) * B < fs" by simp
  have off: "offset_ondemand (int (n - 1)) B = int (n - 1) * B"
    using lt le B by (intro offset_small) auto
  have len: "block_size_at fs B (int (n - 1) * B) =
      (if int (n - 1) * B + B > fs then fs - int (n - 1) * B else B)"
    using lt le B by (intro block_size_small) auto
  show "0 < block_size_at fs B (offset_ondemand (int (n - 1)) B)"
    unfolding off len using lt B by simp
  show "block_size_at fs B (offset_ondemand (int (n - 1)) B) \<le> B"
    unfolding off len by simp
qed

text \<open>
  For an input and a block size whose sum stays within \<open>2^32\<close> both programs compute
  the plan the specification describes.
\<close>

lemma plan_covers_exactly_below_4GiB:
  assumes "0 \<le> fs" and "2 \<le> B" and "fs + B \<le> 2 ^ 32"
  shows "covers_exactly fs B (plan_ondemand fs B)" and "covers_exactly fs B (plan_resident fs B)"
proof -
  have B: "0 < B" using assms by simp
  define n where "n = nat (num_blocks_of fs B)"
  have nb: "num_blocks_of fs B = (fs + B - 1) div B"
    using assms by (rule num_blocks_small)
  have "0 \<le> (fs + B - 1) div B"
    using assms by (simp add: pos_imp_zdiv_nonneg_iff)
  then have n: "int n = (fs + B - 1) div B"
    by (simp add: n_def nb)
  have pl: "plan_ondemand fs B =
      map (\<lambda>i. (offset_ondemand (int i) B, block_size_at fs B (offset_ondemand (int i) B))) [0 ..< n]"
    by (simp add: plan_ondemand_def plan_with_def n_def)
  have same: "plan_resident fs B = plan_ondemand fs B"
    by (simp add: plan_resident_def plan_ondemand_def plan_with_def offsets_agree)
  show c: "covers_exactly fs B (plan_ondemand fs B)"
  proof (cases "fs = 0")
    case True
    with n B assms(2) have "n = 0" by (simp add: div_pos_pos_trivial)
    then have "plan_ondemand fs B = []" by (simp add: pl)
    with True show ?thesis by (simp add: covers_exactly_def)
  next
    case False
    with assms(1) have fs: "0 < fs" by simp
    note l = plan_last_length [OF B assms(3) fs n]
    from contiguous_plan [OF B assms(3) assms(1) n, of 0] l(1)
    have "contiguous_from 0 (plan_ondemand fs B) = Some fs" by (simp add: pl)
    moreover have "snd (last (plan_ondemand fs B)) =
        block_size_at fs B (offset_ondemand (int (n - 1)) B)"
      using l(1) by (simp add: pl last_map)
    ultimately show ?thesis
      using l(2,3) by (simp add: covers_exactly_def)
  qed
  then show "covers_exactly fs B (plan_resident fs B)" by (simp add: same)
qed

section \<open>The plan beyond 32 bits\<close>

text \<open>
  Claim C1 (the plan covers the input for every length and every positive block size):
  the programs keep the offset and the length of a block in an \<^verbatim>\<open>unsigned int\<close>.
  For an input of \<open>2^32 + 1\<close> bytes and \<^verbatim>\<open>-b 1048576\<close> (blocks of \<open>2^30\<close> bytes) the
  on-demand program plans five blocks; the offset of the fifth wraps to 0, so the fifth
  range is the first one again and the last byte of the input is in no range.
\<close>

theorem plan_ondemand_wraps_beyond_4GiB:
  "plan_ondemand (2 ^ 32 + 1) (BLOCK_SIZE_of 1048576) =
     [(0, 2 ^ 30), (2 ^ 30, 2 ^ 30), (2 ^ 31, 2 ^ 30), (3 * 2 ^ 30, 2 ^ 30), (0, 2 ^ 30)]
   \<and> \<not> covers_exactly (2 ^ 32 + 1) (BLOCK_SIZE_of 1048576)
        (plan_ondemand (2 ^ 32 + 1) (BLOCK_SIZE_of 1048576))"
  by (simp add: plan_ondemand_def plan_with_def BLOCK_SIZE_of_def num_blocks_of_def c_div_def
      s32_def s64_def offset_ondemand_def u32_def block_size_at_def upt_rec covers_exactly_def)

text \<open>
  Claim C3 (the offset of block \<open>i\<close> is \<open>i * block_size\<close>, never truncated): with the
  default block size of 900 KB and an input of 5,000,000,000 bytes there are 5426 blocks;
  the exact offset of block 4661 is 4,295,577,600, the on-demand program computes
  610,304, the value modulo \<open>2^32\<close>.
\<close>

theorem offset_ondemand_truncated:
  "num_blocks_of 5000000000 (BLOCK_SIZE_of 900) = 5426
   \<and> 4661 * BLOCK_SIZE_of 900 = 4295577600
   \<and> offset_ondemand 4661 (BLOCK_SIZE_of 900) = 610304"
  by (simp add: BLOCK_SIZE_of_def num_blocks_of_def c_div_def s32_def s64_def
      offset_ondemand_def u32_def)

text \<open>
  The length of a block can exceed what is left of the input without any offset being
  truncated: for an input of \<open>2^32 - 512\<close> bytes and \<^verbatim>\<open>-b 1\<close> the last block starts
  at \<open>2^32 - 1024\<close>, the sum \<^verbatim>\<open>offset + block_size\<close> wraps to 0, the test fails
  and the block keeps the length 1024 where 512 bytes are left.  The on-demand program
  then counts a short read; the resident program reads beyond the loaded file.
\<close>

lemma last_block_overruns_near_4GiB:
  "num_blocks_of (2 ^ 32 - 512) (BLOCK_SIZE_of 1) = 4194304
   \<and> offset_ondemand 4194303 (BLOCK_SIZE_of 1) = 2 ^ 32 - 1024
   \<and> block_size_at (2 ^ 32 - 512) (BLOCK_SIZE_of 1) (2 ^ 32 - 1024) = 1024"
  by (simp add: BLOCK_SIZE_of_def num_blocks_of_def c_div_def s32_def s64_def
      offset_ondemand_def u32_def block_size_at_def)

lemma load_cong_cells: "cells h' b = cells h b \<Longrightarrow> load h' (Some (b, off)) n = load h (Some (b, off)) n"
  by (simp add: load_def)

section \<open>The results of \<^verbatim>\<open>compress_block\<close>\<close>

lemma compress_block_no_malloc:
  assumes "\<not> malloc_out_ok be"
  shows "compress_block bzip be input n outb h = Inr (- 1, outb\<lparr>data := None\<rparr>, h)"
  using assms by (simp add: compress_block_def malloc_def Let_def)

lemma compress_block_bz_fails:
  assumes mo: "malloc_out_ok be"
    and cap: "cap = u32 (n + n div 100 + 600)"
    and h1: "h1 = h\<lparr>cells := (cells h)(next_id h \<mapsto> replicate (nat cap) 0), next_id := Suc (next_id h)\<rparr>"
    and src: "load h1 input (nat n) = Some source"
    and bz: "\<not> bz_mem_ok be \<or> nat cap < length (bzip source)"
  shows "compress_block bzip be input n outb h =
     Inr (- 1, \<lparr>data = None, size_c = cap, original_size = n, \<dots> = CompressedBlock.more outb\<rparr>,
          h1\<lparr>cells := (cells h1)(next_id h := None)\<rparr>)"
proof -
  have m: "malloc (malloc_out_ok be) (nat cap) h = (Some (next_id h, 0), h1)"
    using mo by (simp add: malloc_def h1)
  have b: "BZ2_bzBuffToBuffCompress bzip (bz_mem_ok be) source (nat cap) =
      (if \<not> bz_mem_ok be then BZ_MEM_ERROR else BZ_OUTBUFF_FULL, [])"
    using bz by (auto simp: BZ2_bzBuffToBuffCompress_def)
  have f: "free (Some (next_id h, 0)) h1 = Inr (h1\<lparr>cells := (cells h1)(next_id h := None)\<rparr>)"
    by (simp add: free_def h1)
  show ?thesis
    unfolding compress_block_def cap [symmetric] Let_def m
    by (simp add: src b f BZ_OK_def BZ_MEM_ERROR_def BZ_OUTBUFF_FULL_def)
qed

lemma compress_block_bz_ok:
  assumes mo: "malloc_out_ok be"
    and cap: "cap = u32 (n + n div 100 + 600)"
    and h1: "h1 = h\<lparr>cells := (cells h)(next_id h \<mapsto> replicate (nat cap) 0), next_id := Suc (next_id h)\<rparr>"
    and src: "load h1 input (nat n) = Some source"
    and bz: "bz_mem_ok be" "length (bzip source) \<le> nat cap"
  shows "compress_block bzip be input n outb h =
     Inr (0, \<lparr>data = (if realloc_ok be then Some (next_id h, 0) else None),
              size_c = int (length (bzip source)), original_size = n, \<dots> = CompressedBlock.more outb\<rparr>,
          h1\<lparr>cells := (cells h1)(next_id h \<mapsto>
             (if realloc_ok be then bzip source
              else bzip source @ replicate (nat cap - length (bzip source)) 0))\<rparr>)"
proof -
  have m: "malloc (malloc_out_ok be) (nat cap) h = (Some (next_id h, 0), h1)"
    using mo by (simp add: malloc_def h1)
  have b: "BZ2_bzBuffToBuffCompress bzip (bz_mem_ok be) source (nat cap) = (BZ_OK, bzip source)"
    using bz by (auto simp: BZ2_bzBuffToBuffCompress_def)
  define h2 where "h2 = store h1 (next_id h) (bzip source)"
  have h2: "h2 = h1\<lparr>cells := (cells h1)(next_id h \<mapsto> bzip source @ replicate (nat cap - length (bzip source)) 0)\<rparr>"
    by (simp add: h2_def store_def h1)
  have r: "realloc (realloc_ok be) (Some (next_id h, 0)) (length (bzip source)) h2 =
      Inr (if realloc_ok be then Some (next_id h, 0) else None,
           h1\<lparr>cells := (cells h1)(next_id h \<mapsto>
             (if realloc_ok be then bzip source
              else bzip source @ replicate (nat cap - length (bzip source)) 0))\<rparr>)"
    by (simp add: realloc_def h2 h1)
  show ?thesis
    unfolding compress_block_def cap [symmetric] Let_def m
    by (simp add: src b h2_def [symmetric] r BZ_OK_def)
qed

lemma compress_block_bad_read:
  assumes mo: "malloc_out_ok be" and inp: "input = Some (b, off)" "b < next_id h"
    and src: "load h input (nat n) = None"
  shows "compress_block bzip be input n outb h = Inl Invalid_Read"
proof -
  define cap where "cap = u32 (n + n div 100 + 600)"
  define h1 where "h1 = h\<lparr>cells := (cells h)(next_id h \<mapsto> replicate (nat cap) 0), next_id := Suc (next_id h)\<rparr>"
  have m: "malloc (malloc_out_ok be) (nat cap) h = (Some (next_id h, 0), h1)"
    using mo by (simp add: malloc_def h1_def)
  have "cells h1 b = cells h b" using inp by (simp add: h1_def)
  from load_cong_cells [OF this] src have "load h1 input (nat n) = None"
    by (simp add: inp(1))
  then show ?thesis
    unfolding compress_block_def cap_def [symmetric] Let_def m by simp
qed

lemma load_in_heap:
  assumes "heap_ok h" and "load h p k = Some bs"
  obtains b off where "p = Some (b, off)" and "b < next_id h"
proof -
  from assms(2) obtain b off where p: "p = Some (b, off)" and c: "cells h b \<noteq> None"
    by (cases p) (auto simp: load_def split: option.splits)
  from assms(1) c have "b < next_id h"
    unfolding heap_ok_def by (meson not_le_imp_less)
  with p show thesis by (rule that)
qed

lemma compress_block_spec:
  assumes ok: "heap_ok h"
    and src: "malloc_out_ok be \<Longrightarrow> load h input (nat n) = Some source"
    and n: "n = int (length source)"
  shows "\<exists>blk h'. compress_block bzip be input n zero_block h =
            Inr (if fst (compressed bzip be source) then - 1 else 0, blk, h')
          \<and> view h' blk = snd (compressed bzip be source)
          \<and> extends h h' \<and> fresh_or_null h h' (data blk)"
proof (cases "malloc_out_ok be")
  case False
  have "view h zero_block = (None, 0, 0)"
    by (simp add: view_def payload_of_def load_def zero_block_def)
  moreover have "zero_block\<lparr>data := None\<rparr> = zero_block" by (simp add: zero_block_def)
  moreover have "extends h h" using ok by (simp add: extends_def)
  moreover have "fresh_or_null h h (data zero_block)" by (simp add: fresh_or_null_def zero_block_def)
  ultimately show ?thesis
    using False by (simp add: compress_block_no_malloc compressed_def Let_def)
next
  case mo: True
  define cap where "cap = u32 (n + n div 100 + 600)"
  define h1 where "h1 = h\<lparr>cells := (cells h)(next_id h \<mapsto> replicate (nat cap) 0), next_id := Suc (next_id h)\<rparr>"
  from load_in_heap [OF ok src [OF mo]] obtain b off where inp: "input = Some (b, off)" and blt: "b < next_id h" .
  have "cells h1 b = cells h b" using blt by (simp add: h1_def)
  from load_cong_cells [OF this] have l1: "load h1 input (nat n) = Some source"
    using src [OF mo] by (simp add: inp)
  have cap0: "0 \<le> cap" by (simp add: cap_def u32_def)
  have capn: "cap = u32 (int (length source) + int (length source) div 100 + 600)"
    by (simp add: cap_def n)
  show ?thesis
  proof (cases "\<not> bz_mem_ok be \<or> nat cap < length (bzip source)")
    case True
    let ?blk = "\<lparr>data = None, size_c = cap, original_size = n\<rparr>"
    let ?h = "h1\<lparr>cells := (cells h1)(next_id h := None)\<rparr>"
    have eq: "compress_block bzip be input n zero_block h = Inr (- 1, ?blk, ?h)"
      using compress_block_bz_fails [where bzip = bzip and source = source and outb = zero_block, OF mo cap_def h1_def l1 True]
      by (simp add: zero_block_def)
    have c: "compressed bzip be source = (True, (None, cap, n))"
      using mo True by (auto simp: compressed_def Let_def capn [symmetric] n)
    have v: "view ?h ?blk = (None, cap, n)"
      by (simp add: view_def payload_of_def load_def)
    have e: "extends h ?h"
      using ok by (auto simp: extends_def heap_ok_def h1_def)
    have f: "fresh_or_null h ?h (data ?blk)" by (simp add: fresh_or_null_def)
    show ?thesis
      unfolding eq c using v e f by simp
  next
    case False
    then have bz: "bz_mem_ok be" "length (bzip source) \<le> nat cap" by auto
    let ?blk = "\<lparr>data = (if realloc_ok be then Some (next_id h, 0) else None),
              size_c = int (length (bzip source)), original_size = n\<rparr>"
    let ?h = "h1\<lparr>cells := (cells h1)(next_id h \<mapsto>
             (if realloc_ok be then bzip source
              else bzip source @ replicate (nat cap - length (bzip source)) 0))\<rparr>"
    have eq: "compress_block bzip be input n zero_block h = Inr (0, ?blk, ?h)"
      using compress_block_bz_ok [where bzip = bzip and source = source and outb = zero_block, OF mo cap_def h1_def l1 bz]
      by (simp add: zero_block_def)
    have c: "compressed bzip be source =
        (False, (if realloc_ok be then Some (bzip source) else None, int (length (bzip source)), n))"
      using mo False by (auto simp: compressed_def Let_def capn [symmetric] n)
    have v: "view ?h ?blk = (if realloc_ok be then Some (bzip source) else None, int (length (bzip source)), n)"
      by (simp add: view_def payload_of_def load_def)
    have e: "extends h ?h"
      using ok by (auto simp: extends_def heap_ok_def h1_def)
    have f: "fresh_or_null h ?h (data ?blk)" by (simp add: fresh_or_null_def h1_def)
    show ?thesis
      unfolding eq c using v e f by simp
  qed
qed

section \<open>The loop bodies meet their attempts\<close>

lemma view_zero: "view h zero_block = zero_view"
  by (simp add: view_def payload_of_def load_def zero_block_def zero_view_def)

lemma extends_refl: "heap_ok h \<Longrightarrow> extends h h"
  by (simp add: extends_def)

lemma block_size_at_nonneg: "0 \<le> block_size_at fs B off"
  by (simp add: block_size_at_def Let_def u32_def)

lemma step_ok_untouched:
  assumes "heap_ok (hp st)" "blocks st ! i = zero_block" "i < length (blocks st)"
  shows "step_ok st i (True, zero_view) (count_error st)"
proof -
  have "(blocks st)[i := zero_block] = blocks st"
    using assms(2) by (metis list_update_id)
  then have "count_error st = recorded st i True zero_block (hp st)"
    by (simp add: count_error_def recorded_def)
  moreover have "fresh_or_null (hp st) (hp st) (data zero_block)"
    by (simp add: fresh_or_null_def zero_block_def)
  ultimately show ?thesis
    unfolding step_ok_def using assms(1) view_zero extends_refl by fastforce
qed

lemma body_ondemand_spec:
  assumes ok: "heap_ok (hp st)" and z: "blocks st ! i = zero_block" and i: "i < length (blocks st)"
  shows "\<exists>st'. body_ondemand bzip e files inp file_size B i st = Inr st'
           \<and> step_ok st i (attempt_ondemand bzip e files inp file_size B i) st'"
proof -
  define offset where "offset = offset_ondemand (int i) B"
  define block_size where "block_size = block_size_at file_size B offset"
  define be where "be = per_block e i"
  note u = step_ok_untouched [OF ok z i]
  show ?thesis
  proof (cases "fopen_rb (fopen_ok be) files inp")
    case None
    then show ?thesis
      using u by (simp add: body_ondemand_def attempt_ondemand_def be_def)
  next
    case (Some contents)
    show ?thesis
    proof (cases "malloc_block_ok be")
      case False
      then show ?thesis
        using u Some by (simp add: body_ondemand_def attempt_ondemand_def be_def malloc_def Let_def)
    next
      case mb: True
      define h where "h = hp st"
      define got where "got = take (nat block_size) (drop (nat offset) contents)"
      define h1 where "h1 = h\<lparr>cells := (cells h)(next_id h \<mapsto> replicate (nat block_size) 0), next_id := Suc (next_id h)\<rparr>"
      define h2 where "h2 = store h1 (next_id h) got"
      have m: "malloc (malloc_block_ok be) (nat block_size) h = (Some (next_id h, 0), h1)"
        using mb by (simp add: malloc_def h1_def)
      have lg: "length got \<le> nat block_size" by (simp add: got_def)
      have h2: "h2 = h1\<lparr>cells := (cells h1)(next_id h \<mapsto> got @ replicate (nat block_size - length got) 0)\<rparr>"
        by (simp add: h2_def store_def h1_def)
      have ok2: "heap_ok h2" using ok by (simp add: h2 h1_def heap_ok_def h_def)
      have old2: "\<forall>b < next_id h. cells h2 b = cells h b" by (simp add: h2 h1_def)
      have n2: "next_id h2 = Suc (next_id h)" by (simp add: h2 h1_def)
      show ?thesis
      proof (cases "int (length got) \<noteq> block_size")
        case True
        have f: "free (Some (next_id h, 0)) h2 = Inr (h2\<lparr>cells := (cells h2)(next_id h := None)\<rparr>)"
          by (simp add: free_def h2)
        let ?h3 = "h2\<lparr>cells := (cells h2)(next_id h := None)\<rparr>"
        have e: "extends h ?h3" using ok2 old2 n2 by (simp add: extends_def heap_ok_def)
        have "(blocks st)[i := zero_block] = blocks st"
          using z by (metis list_update_id)
        then have "count_error (st\<lparr>hp := ?h3\<rparr>) = recorded st i True zero_block ?h3"
          by (simp add: count_error_def recorded_def)
        moreover have "fresh_or_null h ?h3 (data zero_block)"
          by (simp add: fresh_or_null_def zero_block_def)
        ultimately have "step_ok st i (True, zero_view) (count_error (st\<lparr>hp := ?h3\<rparr>))"
          unfolding step_ok_def using e view_zero h_def by fastforce
        then show ?thesis
          using True Some mb
          unfolding body_ondemand_def attempt_ondemand_def be_def [symmetric] offset_def [symmetric] Let_def
            block_size_def [symmetric] h_def [symmetric] m
          by (simp add: got_def [symmetric] h2_def [symmetric] f)
      next
        case False
        then have len: "block_size = int (length got)" by simp
        have src: "load h2 (Some (next_id h, 0)) (nat block_size) = Some got"
          using len by (simp add: load_def h2)
        from compress_block_spec [where be = be and bzip = bzip, OF ok2 src len]
        obtain blk h3 where
          c: "compress_block bzip be (Some (next_id h, 0)) block_size zero_block h2 =
                Inr (if fst (compressed bzip be got) then - 1 else 0, blk, h3)"
          and v: "view h3 blk = snd (compressed bzip be got)"
          and e: "extends h2 h3" and fr: "fresh_or_null h2 h3 (data blk)"
          by blast
        have live: "cells h3 (next_id h) \<noteq> None"
          using e n2 by (simp add: extends_def h2)
        let ?h4 = "h3\<lparr>cells := (cells h3)(next_id h := None)\<rparr>"
        have f: "free (Some (next_id h, 0)) h3 = Inr ?h4"
          using live by (simp add: free_def)
        have e4: "extends h ?h4"
          using e old2 n2 by (auto simp: extends_def heap_ok_def)
        have fr4: "fresh_or_null h ?h4 (data blk)"
          using fr n2 by (auto simp: fresh_or_null_def split: option.splits)
        have v4: "view ?h4 blk = view h3 blk"
          using fr n2 by (auto simp: view_def payload_of_def load_def fresh_or_null_def split: option.splits)
        have "step_ok st i (compressed bzip be got)
            (recorded st i (fst (compressed bzip be got)) blk ?h4)"
          unfolding step_ok_def using v v4 e4 fr4 h_def by auto
        moreover have "body_ondemand bzip e files inp file_size B i st =
            Inr (recorded st i (fst (compressed bzip be got)) blk ?h4)"
          using False Some mb
          unfolding body_ondemand_def be_def [symmetric] offset_def [symmetric] Let_def
            block_size_def [symmetric] h_def [symmetric] m
          by (simp add: got_def [symmetric] h2_def [symmetric] z c f recorded_def count_error_def)
        moreover have "attempt_ondemand bzip e files inp file_size B i = compressed bzip be got"
          using False Some mb
          unfolding attempt_ondemand_def be_def [symmetric] offset_def [symmetric] Let_def
            block_size_def [symmetric]
          by (simp add: got_def [symmetric])
        ultimately show ?thesis by simp
      qed
    qed
  qed
qed

section \<open>The invariant of the parallel loop\<close>

lemma extends_trans: "extends h0 h \<Longrightarrow> extends h h' \<Longrightarrow> extends h0 h'"
  by (auto simp: extends_def)

lemma live_below_next: "heap_ok h \<Longrightarrow> cells h b \<noteq> None \<Longrightarrow> b < next_id h"
  unfolding heap_ok_def by (meson not_le_imp_less)

lemma view_extends:
  assumes e: "extends h h'" and p: "data blk = None \<or> (\<exists>b off. data blk = Some (b, off) \<and> b < next_id h)"
  shows "view h' blk = view h blk"
  using assms by (auto simp: view_def payload_of_def load_def extends_def)

lemma failures_insert:
  assumes "i \<notin> D"
  shows "failures att (insert i D) = (if \<exists>v. att i = Inr (True, v) then insert i (failures att D) else failures att D)"
  using assms by (auto simp: failures_def)

lemma table_inv_step:
  assumes inv: "table_inv h0 att n D st" and i: "i < n" "i \<notin> D"
    and a: "att i = Inr a" and s: "step_ok st i a st'" and n: "n < 2 ^ 31"
  shows "table_inv h0 att n (insert i D) st'"
proof -
  from s obtain blk h' where st': "st' = recorded st i (fst a) blk h'"
    and v: "view h' blk = snd a" and e: "extends (hp st) h'"
    and fr: "fresh_or_null (hp st) h' (data blk)"
    by (auto simp: step_ok_def)
  from inv have e0: "extends h0 (hp st)" and len: "length (blocks st) = n" and D: "D \<subseteq> {..<n}"
    and vs: "\<forall>i \<in> D. \<exists>a. att i = Inr a \<and> view (hp st) (blocks st ! i) = snd a"
    and zs: "\<forall>i < n. i \<notin> D \<longrightarrow> blocks st ! i = zero_block"
    and ps: "\<forall>i < n. \<forall>b off. data (blocks st ! i) = Some (b, off) \<longrightarrow>
            off = 0 \<and> cells (hp st) b \<noteq> None \<and> next_id h0 \<le> b
            \<and> (\<forall>j < n. j \<noteq> i \<longrightarrow> data (blocks st ! j) \<noteq> Some (b, off))"
    and ce: "compression_errors st = int (card (failures att D))"
    by (auto simp: table_inv_def)
  have hok: "heap_ok (hp st)" using e0 by (simp add: extends_def)
  have blocks': "blocks st' = (blocks st)[i := blk]" and hp': "hp st' = h'"
    by (simp_all add: st' recorded_def)
  have old: "b < next_id (hp st)" if "j < n" "data (blocks st ! j) = Some (b, off)" for j b off
  proof -
    from ps that have "cells (hp st) b \<noteq> None" by blast
    with hok show ?thesis by (rule live_below_next)
  qed
  have f1: "extends h0 (hp st')" unfolding hp' using e0 e by (rule extends_trans)
  have f2: "length (blocks st') = n" by (simp add: blocks' len)
  have f3: "insert i D \<subseteq> {..<n}" using D i by simp
  have f4: "\<forall>j \<in> insert i D. \<exists>a. att j = Inr a \<and> view (hp st') (blocks st' ! j) = snd a"
  proof
    fix j assume j: "j \<in> insert i D"
    show "\<exists>a. att j = Inr a \<and> view (hp st') (blocks st' ! j) = snd a"
    proof (cases "j = i")
      case True
      then show ?thesis using a v i len by (simp add: blocks' hp')
    next
      case False
      with j have jD: "j \<in> D" by simp
      then have jn: "j < n" using D by auto
      from vs jD obtain a' where a': "att j = Inr a'" "view (hp st) (blocks st ! j) = snd a'" by blast
      have "data (blocks st ! j) = None \<or>
          (\<exists>b off. data (blocks st ! j) = Some (b, off) \<and> b < next_id (hp st))"
      proof (cases "data (blocks st ! j)")
        case None
        then show ?thesis by simp
      next
        case (Some p)
        obtain b off where "p = (b, off)" by (cases p)
        with Some old [OF jn, of b off] show ?thesis by simp
      qed
      with e have "view h' (blocks st ! j) = view (hp st) (blocks st ! j)"
        by (rule view_extends)
      then show ?thesis using a' False by (simp add: blocks' hp')
    qed
  qed
  have f5: "\<forall>j < n. j \<notin> insert i D \<longrightarrow> blocks st' ! j = zero_block"
    using zs by (simp add: blocks')
  have f6: "\<forall>j < n. \<forall>b off. data (blocks st' ! j) = Some (b, off) \<longrightarrow>
            off = 0 \<and> cells (hp st') b \<noteq> None \<and> next_id h0 \<le> b
            \<and> (\<forall>k < n. k \<noteq> j \<longrightarrow> data (blocks st' ! k) \<noteq> Some (b, off))"
  proof (intro allI impI)
    fix j b off assume j: "j < n" and d: "data (blocks st' ! j) = Some (b, off)"
    show "off = 0 \<and> cells (hp st') b \<noteq> None \<and> next_id h0 \<le> b
            \<and> (\<forall>k < n. k \<noteq> j \<longrightarrow> data (blocks st' ! k) \<noteq> Some (b, off))"
    proof (cases "j = i")
      case True
      with d i len have db: "data blk = Some (b, off)" by (simp add: blocks')
      with fr have f: "off = 0" "next_id (hp st) \<le> b" "cells h' b \<noteq> None"
        by (auto simp: fresh_or_null_def)
      have "next_id h0 \<le> next_id (hp st)" using e0 by (simp add: extends_def)
      moreover have "\<forall>k < n. k \<noteq> j \<longrightarrow> data (blocks st' ! k) \<noteq> Some (b, off)"
      proof (intro allI impI)
        fix k assume k: "k < n" "k \<noteq> j"
        show "data (blocks st' ! k) \<noteq> Some (b, off)"
        proof
          assume "data (blocks st' ! k) = Some (b, off)"
          with k True have "data (blocks st ! k) = Some (b, off)" by (simp add: blocks')
          from old [OF k(1) this] f(2) show False by simp
        qed
      qed
      ultimately show ?thesis using f by (simp add: hp')
    next
      case False
      with d have dj: "data (blocks st ! j) = Some (b, off)" by (simp add: blocks')
      from ps j dj have "off = 0 \<and> cells (hp st) b \<noteq> None \<and> next_id h0 \<le> b
            \<and> (\<forall>k < n. k \<noteq> j \<longrightarrow> data (blocks st ! k) \<noteq> Some (b, off))" by blast
      then have p: "off = 0" "cells (hp st) b \<noteq> None" "next_id h0 \<le> b"
        "\<forall>k < n. k \<noteq> j \<longrightarrow> data (blocks st ! k) \<noteq> Some (b, off)" by blast+
      have blt: "b < next_id (hp st)" using old [OF j dj] .
      then have "cells h' b = cells (hp st) b" using e by (simp add: extends_def)
      moreover have "\<forall>k < n. k \<noteq> j \<longrightarrow> data (blocks st' ! k) \<noteq> Some (b, off)"
      proof (intro allI impI)
        fix k assume k: "k < n" "k \<noteq> j"
        show "data (blocks st' ! k) \<noteq> Some (b, off)"
        proof (cases "k = i")
          case True
          show ?thesis
          proof
            assume "data (blocks st' ! k) = Some (b, off)"
            with True i len have "data blk = Some (b, off)" by (simp add: blocks')
            with fr have "next_id (hp st) \<le> b" by (auto simp: fresh_or_null_def)
            with blt show False by simp
          qed
        next
          case False
          then show ?thesis using p(4) k by (simp add: blocks')
        qed
      qed
      ultimately show ?thesis using p by (simp add: hp')
    qed
  qed
  have f7: "compression_errors st' = int (card (failures att (insert i D)))"
  proof -
    have fin: "finite D" using D finite_subset by blast
    then have ff: "finite (failures att D)" by (simp add: failures_def)
    have inD: "i \<notin> failures att D" using i by (simp add: failures_def)
    have "card (failures att D) \<le> card D"
      by (rule card_mono [OF fin]) (auto simp: failures_def)
    also have "card D < n"
    proof -
      have "card (insert i D) \<le> card {..<n}"
        using D i by (intro card_mono) auto
      then show ?thesis using fin i by simp
    qed
    finally have small: "int (card (failures att D)) + 1 < 2 ^ 31" using n by simp
    have w: "s32 (int (card (failures att D)) + 1) = int (card (failures att D)) + 1"
      using small by (intro s32_id) auto
    show ?thesis
    proof (cases "fst a")
      case True
      then have "\<exists>v. att i = Inr (True, v)" using a by (cases a) simp
      then have "failures att (insert i D) = insert i (failures att D)"
        using failures_insert [OF i(2), of att] by simp
      then show ?thesis using True ff inD ce w by (simp add: st' recorded_def)
    next
      case False
      then have "\<not> (\<exists>v. att i = Inr (True, v))" using a by auto
      then have "failures att (insert i D) = failures att D"
        using failures_insert [OF i(2), of att] by simp
      then show ?thesis using False ce by (simp add: st' recorded_def)
    qed
  qed
  show ?thesis
    unfolding table_inv_def by (intro conjI) (rule f1 f2 f3 f4 f5 f6 f7)+
qed

lemma table_inv_init:
  assumes "heap_ok h0"
  shows "table_inv h0 att n {} \<lparr>blocks = replicate n zero_block, compression_errors = 0, hp = h0\<rparr>"
  using assms by (simp add: table_inv_def extends_def failures_def zero_block_def)

lemma omp_for_inv:
  assumes bm: "body_meets body att h0 n" and n: "n < 2 ^ 31"
  shows "table_inv h0 att n D st \<Longrightarrow> distinct sched \<Longrightarrow> set sched \<subseteq> {..<n} - D
    \<Longrightarrow> \<forall>i \<in> set sched. \<exists>a. att i = Inr a
    \<Longrightarrow> \<exists>st'. omp_for body sched st = Inr st' \<and> table_inv h0 att n (D \<union> set sched) st'"
proof (induction sched arbitrary: st D)
  case Nil
  then show ?case by simp
next
  case (Cons i sched)
  from Cons.prems have i: "i < n" "i \<notin> D" by auto
  from Cons.prems obtain a where a: "att i = Inr a" by auto
  from Cons.prems(1) have pre: "extends h0 (hp st)" "length (blocks st) = n" "blocks st ! i = zero_block"
    using i by (auto simp: table_inv_def)
  from bm i(1) pre a obtain st1 where b: "body i st = Inr st1" and s: "step_ok st i a st1"
    unfolding body_meets_def by fastforce
  have inv1: "table_inv h0 att n (insert i D) st1"
    using Cons.prems(1) i a s n by (rule table_inv_step)
  have "\<exists>st'. omp_for body sched st1 = Inr st' \<and> table_inv h0 att n (insert i D \<union> set sched) st'"
    using inv1 Cons.prems by (intro Cons.IH) auto
  then show ?case by (simp add: b)
qed

lemma omp_for_fault:
  assumes bm: "body_meets body att h0 n" and n: "n < 2 ^ 31"
  shows "table_inv h0 att n D st \<Longrightarrow> distinct sched \<Longrightarrow> set sched \<subseteq> {..<n} - D
    \<Longrightarrow> \<exists>i \<in> set sched. \<exists>f. att i = Inl f
    \<Longrightarrow> \<exists>i \<in> set sched. \<exists>f. att i = Inl f \<and> omp_for body sched st = Inl f"
proof (induction sched arbitrary: st D)
  case Nil
  then show ?case by simp
next
  case (Cons i sched)
  from Cons.prems have i: "i < n" "i \<notin> D" by auto
  from Cons.prems(1) have pre: "extends h0 (hp st)" "length (blocks st) = n" "blocks st ! i = zero_block"
    using i by (auto simp: table_inv_def)
  show ?case
  proof (cases "att i")
    case (Inl f)
    with bm i(1) pre have "body i st = Inl f"
      unfolding body_meets_def by fastforce
    with Inl show ?thesis by simp
  next
    case (Inr a)
    from bm i(1) pre Inr obtain st1 where b: "body i st = Inr st1" and s: "step_ok st i a st1"
      unfolding body_meets_def by fastforce
    have inv1: "table_inv h0 att n (insert i D) st1"
      using Cons.prems(1) i Inr s n by (rule table_inv_step)
    have "\<exists>j \<in> set sched. \<exists>f. att j = Inl f" using Cons.prems(4) Inr by auto
    with inv1 Cons.prems have "\<exists>j \<in> set sched. \<exists>f. att j = Inl f \<and> omp_for body sched st1 = Inl f"
      by (intro Cons.IH) auto
    then show ?thesis by (simp add: b)
  qed
qed

lemma is_schedule_props:
  assumes "is_schedule sched num_blocks"
  shows "distinct sched" and "set sched = {..<nat num_blocks}"
proof -
  from assms have m: "mset sched = mset [0 ..< nat num_blocks]" by (simp add: is_schedule_def)
  from mset_eq_imp_distinct_iff [OF m] show "distinct sched" by simp
  from mset_eq_setD [OF m] show "set sched = {..<nat num_blocks}" by auto
qed

lemma body_ondemand_meets:
  "body_meets (body_ondemand bzip e files inp file_size B)
     (\<lambda>i. Inr (attempt_ondemand bzip e files inp file_size B i)) h0 n"
  unfolding body_meets_def
proof (intro allI impI)
  fix i and st :: pstate
  assume a: "i < n \<and> extends h0 (hp st) \<and> length (blocks st) = n \<and> blocks st ! i = zero_block"
  then have "heap_ok (hp st)" by (simp add: extends_def)
  from body_ondemand_spec [OF this, of i bzip e files inp file_size B] a
  show "case Inr (attempt_ondemand bzip e files inp file_size B i) of
          Inl f \<Rightarrow> body_ondemand bzip e files inp file_size B i st = Inl f
        | Inr a \<Rightarrow> \<exists>st'. body_ondemand bzip e files inp file_size B i st = Inr st' \<and> step_ok st i a st'"
    by simp
qed

lemma body_resident_meets:
  assumes fd: "cells h0 fb = Some contents" and ok0: "heap_ok h0"
  shows "body_meets (body_resident bzip e (Some (fb, 0)) file_size B)
     (attempt_resident bzip e contents file_size B) h0 n"
  unfolding body_meets_def
proof (intro allI impI)
  fix i and st :: pstate
  assume a: "i < n \<and> extends h0 (hp st) \<and> length (blocks st) = n \<and> blocks st ! i = zero_block"
  then have ok: "heap_ok (hp st)" and e: "extends h0 (hp st)" and z: "blocks st ! i = zero_block"
    and i: "i < length (blocks st)" by (simp_all add: extends_def)
  have fb0: "fb < next_id h0" using ok0 fd by (intro live_below_next) auto
  then have fd': "cells (hp st) fb = Some contents" and fb: "fb < next_id (hp st)"
    using e fd by (auto simp: extends_def)
  define offset where "offset = offset_resident (int i) B"
  define block_size where "block_size = block_size_at file_size B offset"
  define be where "be = per_block e i"
  define source where "source = take (nat block_size) (drop (nat offset) contents)"
  have bs0: "0 \<le> block_size" by (simp add: block_size_def block_size_at_nonneg)
  have inp: "ptr_add (Some (fb, 0)) (nat offset) = Some (fb, nat offset)" by (simp add: ptr_add_def)
  have body: "body_resident bzip e (Some (fb, 0)) file_size B i st =
      (case compress_block bzip be (Some (fb, nat offset)) block_size zero_block (hp st) of
         Inl f \<Rightarrow> Inl f
       | Inr (result, blk, h') \<Rightarrow> Inr (recorded st i (result \<noteq> 0) blk h'))"
    unfolding body_resident_def Let_def offset_def [symmetric] block_size_def [symmetric]
      be_def [symmetric] inp z
    by (cases "compress_block bzip be (Some (fb, nat offset)) block_size zero_block (hp st)")
       (simp_all add: recorded_def count_error_def split_beta)
  show "case attempt_resident bzip e contents file_size B i of
          Inl f \<Rightarrow> body_resident bzip e (Some (fb, 0)) file_size B i st = Inl f
        | Inr a \<Rightarrow> \<exists>st'. body_resident bzip e (Some (fb, 0)) file_size B i st = Inr st' \<and> step_ok st i a st'"
  proof (cases "nat offset + nat block_size \<le> length contents")
    case True
    then have l: "load (hp st) (Some (fb, nat offset)) (nat block_size) = Some source"
      by (simp add: load_def fd' source_def)
    have len: "block_size = int (length source)"
      using True bs0 by (simp add: source_def)
    from compress_block_spec [where be = be and bzip = bzip, OF ok l len]
    obtain blk h' where
      c: "compress_block bzip be (Some (fb, nat offset)) block_size zero_block (hp st) =
            Inr (if fst (compressed bzip be source) then - 1 else 0, blk, h')"
      and v: "view h' blk = snd (compressed bzip be source)"
      and ex: "extends (hp st) h'" and fr: "fresh_or_null (hp st) h' (data blk)"
      by blast
    have att: "attempt_resident bzip e contents file_size B i = Inr (compressed bzip be source)"
      using True
      unfolding attempt_resident_def offset_def [symmetric] Let_def block_size_def [symmetric]
        be_def [symmetric] source_def [symmetric] by simp
    have "step_ok st i (compressed bzip be source) (recorded st i (fst (compressed bzip be source)) blk h')"
      unfolding step_ok_def using v ex fr by auto
    then show ?thesis
      unfolding att body c by auto
  next
    case False
    then have l: "load (hp st) (Some (fb, nat offset)) (nat block_size) = None"
      by (simp add: load_def fd')
    show ?thesis
    proof (cases "malloc_out_ok be")
      case True
      have "compress_block bzip be (Some (fb, nat offset)) block_size zero_block (hp st) = Inl Invalid_Read"
        using True _ fb l by (rule compress_block_bad_read) simp
      moreover have "attempt_resident bzip e contents file_size B i = Inl Invalid_Read"
        using True False
        unfolding attempt_resident_def offset_def [symmetric] Let_def block_size_def [symmetric]
          be_def [symmetric] by simp
      ultimately show ?thesis unfolding body by simp
    next
      case mo: False
      have c: "compress_block bzip be (Some (fb, nat offset)) block_size zero_block (hp st) =
          Inr (- 1, zero_block, hp st)"
        using mo by (simp add: compress_block_no_malloc zero_block_def)
      have att: "attempt_resident bzip e contents file_size B i = Inr (True, zero_view)"
        using mo False
        unfolding attempt_resident_def offset_def [symmetric] Let_def block_size_def [symmetric]
          be_def [symmetric] by simp
      have "(blocks st)[i := zero_block] = blocks st"
        using z by (metis list_update_id)
      then have "recorded st i True zero_block (hp st) = count_error st"
        by (simp add: recorded_def count_error_def)
      then show ?thesis
        unfolding att body c using step_ok_untouched [OF ok z i] by simp
    qed
  qed
qed

section \<open>The writer and the clean-up loops\<close>

declare write_loop.simps [simp del] cleanup_loop.simps [simp del]

text \<open>A buffer that can be read is what \<^verbatim>\<open>fwrite\<close> reads.\<close>

lemma load_fwrite_source:
  "load h p n = Some bs \<Longrightarrow> fwrite_source h p n = Some bs"
  by (auto simp: fwrite_source_def load_def split: option.splits if_splits)

lemma write_bzip2_file_unfold:
  "write_bzip2_file e h files outp bl num_blocks =
     (if \<not> fopen_out_ok e then Inr (- 1, files)
      else case write_loop (fwrite_room e) h bl (nat num_blocks) 0 [] of
             Inl f \<Rightarrow> Inl f
           | Inr (r, out) \<Rightarrow> Inr (r, files(outp \<mapsto> take (flush_room e) out)))"
  by (simp add: write_bzip2_file_def fclose_def split: sum.splits)


text \<open>The loop when every block is in place: it stops at the first short write.\<close>

lemma write_loop_full:
  assumes "\<forall>j. i \<le> j \<and> j < n \<longrightarrow> payload_of h (bl ! j) = Some (pl j) \<and> size_c (bl ! j) = int (length (pl j))
             \<and> length (pl j) \<le> room j"
    and "i \<le> n"
  shows "write_loop room h bl n i out = Inr (0, out @ concat (map pl [i ..< n]))"
  using assms
proof (induction "n - i" arbitrary: i out)
  case 0
  then have "n = i" by simp
  then show ?case by (simp add: write_loop.simps [of _ _ _ i i])
next
  case (Suc d)
  then have i: "i < n" by simp
  from Suc.prems i have s: "size_c (bl ! i) = int (length (pl i))" and r: "length (pl i) \<le> room i"
    by simp_all
  from Suc.prems i have "payload_of h (bl ! i) = Some (pl i)" by simp
  then have p: "fwrite_source h (data (bl ! i)) (length (pl i)) = Some (pl i)"
    by (simp add: payload_of_def s load_fwrite_source)
  have "write_loop room h bl n (Suc i) (out @ pl i) = Inr (0, (out @ pl i) @ concat (map pl [Suc i ..< n]))"
    using Suc.hyps(2) Suc.prems i by (intro Suc.hyps(1)) auto
  then show ?case
    using i r by (simp add: write_loop.simps [of _ _ _ n i] p s Let_def upt_conv_Cons min_def)
qed

lemma write_loop_short:
  assumes "\<forall>j. i \<le> j \<and> j < n \<longrightarrow> payload_of h (bl ! j) = Some (pl j) \<and> size_c (bl ! j) = int (length (pl j))"
    and "i \<le> k" "k < n" "room k < length (pl k)" "\<forall>j. i \<le> j \<and> j < k \<longrightarrow> length (pl j) \<le> room j"
  shows "write_loop room h bl n i out = Inr (- 1, out @ concat (map pl [i ..< k]) @ take (room k) (pl k))"
  using assms
proof (induction "k - i" arbitrary: i out)
  case 0
  then have ik: "i = k" by simp
  from "0.prems" have s: "size_c (bl ! k) = int (length (pl k))"
    by (simp add: ik)
  from "0.prems" have "payload_of h (bl ! k) = Some (pl k)" by (simp add: ik)
  then have p: "fwrite_source h (data (bl ! k)) (length (pl k)) = Some (pl k)"
    by (simp add: payload_of_def s load_fwrite_source)
  show ?case
    using "0.prems"(3,4) by (simp add: ik write_loop.simps [of _ _ _ n k] p s Let_def min_def)
next
  case (Suc d)
  then have i: "i < k" "i < n" by simp_all
  from Suc.prems i have s: "size_c (bl ! i) = int (length (pl i))" and r: "length (pl i) \<le> room i"
    by simp_all
  from Suc.prems i have "payload_of h (bl ! i) = Some (pl i)" by simp
  then have p: "fwrite_source h (data (bl ! i)) (length (pl i)) = Some (pl i)"
    by (simp add: payload_of_def s load_fwrite_source)
  have "write_loop room h bl n (Suc i) (out @ pl i) =
      Inr (- 1, (out @ pl i) @ concat (map pl [Suc i ..< k]) @ take (room k) (pl k))"
    using Suc.hyps(2) Suc.prems i by (intro Suc.hyps(1)) auto
  then show ?case
    using i r by (simp add: write_loop.simps [of _ _ _ n i] p s Let_def upt_conv_Cons min_def)
qed


lemma cleanup_loop_safe:
  assumes "\<forall>j. i \<le> j \<and> j < n \<longrightarrow> (\<forall>b off. data (bl ! j) = Some (b, off) \<longrightarrow>
            off = 0 \<and> cells h b \<noteq> None \<and> m \<le> b
            \<and> (\<forall>k < n. k \<noteq> j \<longrightarrow> data (bl ! k) \<noteq> Some (b, off)))"
  shows "\<exists>h'. cleanup_loop bl n i h = Inr h' \<and> (\<forall>b < m. cells h' b = cells h b)"
  using assms
proof (induction "n - i" arbitrary: i h)
  case 0
  then show ?case by (simp add: cleanup_loop.simps [of _ n i])
next
  case (Suc d)
  then have i: "i < n" by simp
  show ?case
  proof (cases "data (bl ! i)")
    case None
    have "\<exists>h'. cleanup_loop bl n (Suc i) h = Inr h' \<and> (\<forall>b < m. cells h' b = cells h b)"
    proof (rule Suc.hyps(1))
      show "d = n - Suc i" using Suc.hyps(2) by simp
      show "\<forall>j. Suc i \<le> j \<and> j < n \<longrightarrow> (\<forall>b off. data (bl ! j) = Some (b, off) \<longrightarrow>
            off = 0 \<and> cells h b \<noteq> None \<and> m \<le> b
            \<and> (\<forall>k < n. k \<noteq> j \<longrightarrow> data (bl ! k) \<noteq> Some (b, off)))"
        using Suc.prems by (meson Suc_leD)
    qed
    then show ?thesis using i None by (simp add: cleanup_loop.simps [of _ n i])
  next
    case (Some p)
    obtain b off where p: "p = (b, off)" by (cases p)
    have "i \<le> i \<and> i < n" using i by simp
    with Suc.prems Some p have "off = 0 \<and> cells h b \<noteq> None \<and> m \<le> b
            \<and> (\<forall>k < n. k \<noteq> i \<longrightarrow> data (bl ! k) \<noteq> Some (b, off))" by blast
    then have q: "off = 0" "cells h b \<noteq> None" "m \<le> b"
      "\<forall>k < n. k \<noteq> i \<longrightarrow> data (bl ! k) \<noteq> Some (b, off)" by blast+
    let ?h = "h\<lparr>cells := (cells h)(b := None)\<rparr>"
    have f: "free (data (bl ! i)) h = Inr ?h"
      using q by (simp add: free_def Some p)
    have "\<exists>h'. cleanup_loop bl n (Suc i) ?h = Inr h' \<and> (\<forall>c < m. cells h' c = cells ?h c)"
    proof (intro Suc.hyps(1) allI impI)
      show "d = n - Suc i" using Suc.hyps(2) by simp
    next
      fix j c off'
      assume j: "Suc i \<le> j \<and> j < n" and dj: "data (bl ! j) = Some (c, off')"
      then have "i \<le> j \<and> j < n" by simp
      with Suc.prems dj have "off' = 0 \<and> cells h c \<noteq> None \<and> m \<le> c
            \<and> (\<forall>k < n. k \<noteq> j \<longrightarrow> data (bl ! k) \<noteq> Some (c, off'))" by blast
      then have r: "off' = 0" "cells h c \<noteq> None" "m \<le> c"
        "\<forall>k < n. k \<noteq> j \<longrightarrow> data (bl ! k) \<noteq> Some (c, off')" by blast+
      from r(4) i j have "data (bl ! i) \<noteq> Some (c, off')" by auto
      then have "c \<noteq> b" using Some p q(1) r(1) by auto
      then show "off' = 0 \<and> cells ?h c \<noteq> None \<and> m \<le> c
            \<and> (\<forall>k < n. k \<noteq> j \<longrightarrow> data (bl ! k) \<noteq> Some (c, off'))"
        using r by simp
    qed
    then obtain h' where c: "cleanup_loop bl n (Suc i) ?h = Inr h'" and u: "\<forall>c < m. cells h' c = cells ?h c"
      by blast
    have "\<forall>c < m. cells h' c = cells h c" using u q(3) by auto
    then show ?thesis
      using i Some c f by (simp add: cleanup_loop.simps [of _ n i])
  qed
qed

section \<open>The code after the loop\<close>


lemma cleanup_blocks_safe:
  assumes inv: "table_inv h0 att n D st" and n: "nat num_blocks = n"
    and tb: "cells h0 tb \<noteq> None" and ok0: "heap_ok h0"
  shows "\<exists>h'. cleanup_blocks (Some (tb, 0)) (blocks st) num_blocks (hp st) = Inr h'
           \<and> (\<forall>b < next_id h0. b \<noteq> tb \<longrightarrow> cells h' b = cells h0 b)"
proof -
  from inv have e0: "extends h0 (hp st)"
    and ps: "\<forall>i < n. \<forall>b off. data (blocks st ! i) = Some (b, off) \<longrightarrow>
            off = 0 \<and> cells (hp st) b \<noteq> None \<and> next_id h0 \<le> b
            \<and> (\<forall>j < n. j \<noteq> i \<longrightarrow> data (blocks st ! j) \<noteq> Some (b, off))"
    by (auto simp: table_inv_def)
  have "\<forall>j. 0 \<le> j \<and> j < n \<longrightarrow> (\<forall>b off. data (blocks st ! j) = Some (b, off) \<longrightarrow>
            off = 0 \<and> cells (hp st) b \<noteq> None \<and> next_id h0 \<le> b
            \<and> (\<forall>k < n. k \<noteq> j \<longrightarrow> data (blocks st ! k) \<noteq> Some (b, off)))"
    using ps by simp
  from cleanup_loop_safe [OF this]
  obtain h1 where c: "cleanup_loop (blocks st) n 0 (hp st) = Inr h1"
    and u: "\<forall>b < next_id h0. cells h1 b = cells (hp st) b" by blast
  have tb0: "tb < next_id h0" using ok0 tb by (rule live_below_next)
  have old: "\<forall>b < next_id h0. cells h1 b = cells h0 b"
    using u e0 by (simp add: extends_def)
  then have "cells h1 tb \<noteq> None" using tb tb0 by simp
  then have "free (Some (tb, 0)) h1 = Inr (h1\<lparr>cells := (cells h1)(tb := None)\<rparr>)"
    by (simp add: free_def)
  then show ?thesis
    using c old by (simp add: cleanup_blocks_def n)
qed

lemma release_ondemand_safe:
  assumes "table_inv h0 att n D st" and "nat num_blocks = n"
    and "cells h0 tb \<noteq> None" and "heap_ok h0"
  shows "\<exists>h'. release_ondemand (Some (tb, 0)) num_blocks st x files = Inr (x, files, h')"
  using cleanup_blocks_safe [OF assms] by (auto simp: release_ondemand_def)

lemma release_resident_safe:
  assumes "table_inv h0 att n D st" and "nat num_blocks = n"
    and "cells h0 tb \<noteq> None" and "heap_ok h0" and fb: "cells h0 fb \<noteq> None" "fb \<noteq> tb"
  shows "\<exists>h'. release_resident (Some (tb, 0)) (Some (fb, 0)) num_blocks st x files = Inr (x, files, h')"
proof -
  from cleanup_blocks_safe [OF assms(1-4)]
  obtain h1 where c: "cleanup_blocks (Some (tb, 0)) (blocks st) num_blocks (hp st) = Inr h1"
    and u: "\<forall>b < next_id h0. b \<noteq> tb \<longrightarrow> cells h1 b = cells h0 b" by blast
  have "fb < next_id h0" using assms(4) fb(1) by (rule live_below_next)
  with u fb have "cells h1 fb \<noteq> None" by simp
  then have "free (Some (fb, 0)) h1 = Inr (h1\<lparr>cells := (cells h1)(fb := None)\<rparr>)"
    by (simp add: free_def)
  then show ?thesis using c by (simp add: release_resident_def)
qed






section \<open>The parallel phase under every schedule\<close>

lemma parallel_phase_ondemand_inv:
  assumes s: "is_schedule sched num_blocks" and nb: "num_blocks < 2 ^ 31" and ok: "heap_ok h0"
  shows "\<exists>st. parallel_phase_ondemand bzip e sched files inp fsz B
              \<lparr>blocks = replicate (nat num_blocks) zero_block, compression_errors = 0, hp = h0\<rparr> = Inr st
           \<and> table_inv h0 (\<lambda>i. Inr (attempt_ondemand bzip e files inp fsz B i)) (nat num_blocks)
                {..<nat num_blocks} st"
proof -
  let ?n = "nat num_blocks"
  let ?att = "\<lambda>i. Inr (attempt_ondemand bzip e files inp fsz B i) :: fault + bool \<times> entry_view"
  have n: "?n < 2 ^ 31" using nb by (simp add: nat_less_iff)
  note p = is_schedule_props [OF s]
  have "\<exists>st'. omp_for (body_ondemand bzip e files inp fsz B) sched
            \<lparr>blocks = replicate ?n zero_block, compression_errors = 0, hp = h0\<rparr> = Inr st'
          \<and> table_inv h0 ?att ?n ({} \<union> set sched) st'"
  proof (rule omp_for_inv [OF body_ondemand_meets n table_inv_init [OF ok] p(1)])
    show "set sched \<subseteq> {..<?n} - {}" by (simp add: p(2))
    show "\<forall>i \<in> set sched. \<exists>a. ?att i = Inr a" by blast
  qed
  then show ?thesis by (simp add: parallel_phase_ondemand_def p(2))
qed

lemma attempt_resident_fault: "attempt_resident bzip e contents fsz B i = Inl f \<Longrightarrow> f = Invalid_Read"
  by (simp add: attempt_resident_def Let_def split: if_splits)

lemma parallel_phase_resident_inv:
  assumes s: "is_schedule sched num_blocks" and nb: "num_blocks < 2 ^ 31" and ok: "heap_ok h0"
    and fd: "cells h0 fb = Some contents"
  shows "(\<forall>i < nat num_blocks. \<exists>a. attempt_resident bzip e contents fsz B i = Inr a) \<Longrightarrow>
         \<exists>st. parallel_phase_resident bzip e sched (Some (fb, 0)) fsz B
              \<lparr>blocks = replicate (nat num_blocks) zero_block, compression_errors = 0, hp = h0\<rparr> = Inr st
           \<and> table_inv h0 (attempt_resident bzip e contents fsz B) (nat num_blocks) {..<nat num_blocks} st"
    and "\<not> (\<forall>i < nat num_blocks. \<exists>a. attempt_resident bzip e contents fsz B i = Inr a) \<Longrightarrow>
         parallel_phase_resident bzip e sched (Some (fb, 0)) fsz B
              \<lparr>blocks = replicate (nat num_blocks) zero_block, compression_errors = 0, hp = h0\<rparr> = Inl Invalid_Read"
proof -
  let ?n = "nat num_blocks"
  let ?att = "attempt_resident bzip e contents fsz B"
  let ?st0 = "\<lparr>blocks = replicate ?n zero_block, compression_errors = 0, hp = h0\<rparr>"
  have n: "?n < 2 ^ 31" using nb by (simp add: nat_less_iff)
  note p = is_schedule_props [OF s]
  note bm = body_resident_meets [OF fd ok, of bzip e fsz B ?n]
  {
    assume "\<forall>i < ?n. \<exists>a. ?att i = Inr a"
    then have all: "\<forall>i \<in> set sched. \<exists>a. ?att i = Inr a" by (simp add: p(2))
    have "\<exists>st'. omp_for (body_resident bzip e (Some (fb, 0)) fsz B) sched ?st0 = Inr st'
          \<and> table_inv h0 ?att ?n ({} \<union> set sched) st'"
      using bm n table_inv_init [OF ok] p(1) _ all
      by (rule omp_for_inv) (simp add: p(2))
    then show "\<exists>st. parallel_phase_resident bzip e sched (Some (fb, 0)) fsz B ?st0 = Inr st
           \<and> table_inv h0 ?att ?n {..<?n} st"
      by (simp add: parallel_phase_resident_def p(2))
  }
  {
    assume "\<not> (\<forall>i < ?n. \<exists>a. ?att i = Inr a)"
    then obtain i where "i < ?n" "\<forall>a. ?att i \<noteq> Inr a" by blast
    then have ex: "\<exists>i \<in> set sched. \<exists>f. ?att i = Inl f"
      unfolding p(2) by (cases "?att i") auto
    have "\<exists>i \<in> set sched. \<exists>f. ?att i = Inl f
        \<and> omp_for (body_resident bzip e (Some (fb, 0)) fsz B) sched ?st0 = Inl f"
      using bm n table_inv_init [OF ok] p(1) _ ex
      by (rule omp_for_fault) (simp add: p(2))
    then show "parallel_phase_resident bzip e sched (Some (fb, 0)) fsz B ?st0 = Inl Invalid_Read"
      using attempt_resident_fault by (fastforce simp: parallel_phase_resident_def)
  }
qed

section \<open>The pipelines up to the loop\<close>





section \<open>Iterations on their own\<close>

lemma step_ok_alone:
  assumes "step_ok st i a st'" and "i < length (blocks st)" and "compression_errors st = 0"
  shows "view (hp st') (blocks st' ! i) = snd a" and "compression_errors st' \<noteq> 0 \<longleftrightarrow> fst a"
  using assms by (auto simp: step_ok_def recorded_def s32_def split: if_splits)

lemma body_ondemand_alone:
  assumes "heap_ok h0" and "i < n"
  shows "\<exists>st'. body_ondemand bzip e files inp fsz B i
            \<lparr>blocks = replicate n zero_block, compression_errors = 0, hp = h0\<rparr> = Inr st'
          \<and> view (hp st') (blocks st' ! i) = snd (attempt_ondemand bzip e files inp fsz B i)
          \<and> (compression_errors st' \<noteq> 0 \<longleftrightarrow> fst (attempt_ondemand bzip e files inp fsz B i))"
proof -
  let ?st0 = "\<lparr>blocks = replicate n zero_block, compression_errors = 0, hp = h0\<rparr>"
  have "\<exists>st'. body_ondemand bzip e files inp fsz B i ?st0 = Inr st'
           \<and> step_ok ?st0 i (attempt_ondemand bzip e files inp fsz B i) st'"
    using assms by (intro body_ondemand_spec) simp_all
  then obtain st' where b: "body_ondemand bzip e files inp fsz B i ?st0 = Inr st'"
    and s: "step_ok ?st0 i (attempt_ondemand bzip e files inp fsz B i) st'" by blast
  from step_ok_alone [OF s] assms(2) b show ?thesis by simp
qed

lemma parallel_phase_ondemand_attempts_all:
  assumes "is_schedule sched num_blocks" and "num_blocks < 2 ^ 31" and "heap_ok h0"
  shows "\<exists>st. parallel_phase_ondemand bzip e sched files inp fsz B
              \<lparr>blocks = replicate (nat num_blocks) zero_block, compression_errors = 0, hp = h0\<rparr> = Inr st
           \<and> length (blocks st) = nat num_blocks
           \<and> (\<forall>i < nat num_blocks. \<exists>st_i.
                 body_ondemand bzip e files inp fsz B i
                   \<lparr>blocks = replicate (nat num_blocks) zero_block, compression_errors = 0, hp = h0\<rparr> = Inr st_i
                 \<and> view (hp st) (blocks st ! i) = view (hp st_i) (blocks st_i ! i))
           \<and> compression_errors st =
               int (card {i. i < nat num_blocks \<and> (\<exists>st_i.
                 body_ondemand bzip e files inp fsz B i
                   \<lparr>blocks = replicate (nat num_blocks) zero_block, compression_errors = 0, hp = h0\<rparr> = Inr st_i
                 \<and> compression_errors st_i \<noteq> 0)})"
proof -
  let ?n = "nat num_blocks"
  let ?st0 = "\<lparr>blocks = replicate ?n zero_block, compression_errors = 0, hp = h0\<rparr>"
  let ?a = "attempt_ondemand bzip e files inp fsz B"
  let ?att = "\<lambda>i. Inr (?a i) :: fault + bool \<times> entry_view"
  from parallel_phase_ondemand_inv [OF assms, of bzip e files inp fsz B]
  obtain st where p: "parallel_phase_ondemand bzip e sched files inp fsz B ?st0 = Inr st"
    and inv: "table_inv h0 ?att ?n {..<?n} st" by blast
  from inv have len: "length (blocks st) = ?n"
    and vs: "\<forall>i \<in> {..<?n}. \<exists>a. ?att i = Inr a \<and> view (hp st) (blocks st ! i) = snd a"
    and ce: "compression_errors st = int (card (failures ?att {..<?n}))"
    by (simp_all add: table_inv_def)
  note alone = body_ondemand_alone [OF assms(3), of _ ?n bzip e files inp fsz B]
  have v: "\<forall>i < ?n. \<exists>st_i. body_ondemand bzip e files inp fsz B i ?st0 = Inr st_i
                 \<and> view (hp st) (blocks st ! i) = view (hp st_i) (blocks st_i ! i)"
  proof (intro allI impI)
    fix i assume i: "i < ?n"
    from alone [OF i] obtain st_i where "body_ondemand bzip e files inp fsz B i ?st0 = Inr st_i"
      "view (hp st_i) (blocks st_i ! i) = snd (?a i)" by blast
    moreover from vs i have "view (hp st) (blocks st ! i) = snd (?a i)" by auto
    ultimately show "\<exists>st_i. body_ondemand bzip e files inp fsz B i ?st0 = Inr st_i
                 \<and> view (hp st) (blocks st ! i) = view (hp st_i) (blocks st_i ! i)" by simp
  qed
  have "failures ?att {..<?n} = {i. i < ?n \<and> (\<exists>st_i.
                 body_ondemand bzip e files inp fsz B i ?st0 = Inr st_i \<and> compression_errors st_i \<noteq> 0)}"
  proof (rule set_eqI)
    fix i
    show "i \<in> failures ?att {..<?n} \<longleftrightarrow> i \<in> {i. i < ?n \<and> (\<exists>st_i.
                 body_ondemand bzip e files inp fsz B i ?st0 = Inr st_i \<and> compression_errors st_i \<noteq> 0)}"
    proof (cases "i < ?n")
      case False
      then show ?thesis by (simp add: failures_def)
    next
      case True
      from alone [OF True] obtain st_i where b: "body_ondemand bzip e files inp fsz B i ?st0 = Inr st_i"
        and c: "compression_errors st_i \<noteq> 0 \<longleftrightarrow> fst (?a i)" by blast
      have "i \<in> failures ?att {..<?n} \<longleftrightarrow> fst (?a i)"
        using True by (cases "?a i") (auto simp: failures_def)
      with True b c show ?thesis by simp
    qed
  qed
  with ce p len v show ?thesis by simp
qed

lemma body_resident_alone:
  assumes ok: "heap_ok h0" and fd: "cells h0 fb = Some contents" and i: "i < n"
  shows "case attempt_resident bzip e contents fsz B i of
           Inl f \<Rightarrow> body_resident bzip e (Some (fb, 0)) fsz B i
               \<lparr>blocks = replicate n zero_block, compression_errors = 0, hp = h0\<rparr> = Inl f
         | Inr a \<Rightarrow> (\<exists>st'. body_resident bzip e (Some (fb, 0)) fsz B i
               \<lparr>blocks = replicate n zero_block, compression_errors = 0, hp = h0\<rparr> = Inr st'
             \<and> view (hp st') (blocks st' ! i) = snd a \<and> (compression_errors st' \<noteq> 0 \<longleftrightarrow> fst a))"
proof -
  let ?st0 = "\<lparr>blocks = replicate n zero_block, compression_errors = 0, hp = h0\<rparr>"
  have pre: "i < n \<and> extends h0 (hp ?st0) \<and> length (blocks ?st0) = n \<and> blocks ?st0 ! i = zero_block"
    using ok i by (simp add: extends_refl)
  from body_resident_meets [OF fd ok, of bzip e fsz B n] pre
  have m: "case attempt_resident bzip e contents fsz B i of
           Inl f \<Rightarrow> body_resident bzip e (Some (fb, 0)) fsz B i ?st0 = Inl f
         | Inr a \<Rightarrow> (\<exists>st'. body_resident bzip e (Some (fb, 0)) fsz B i ?st0 = Inr st' \<and> step_ok ?st0 i a st')"
    unfolding body_meets_def by blast
  show ?thesis
  proof (cases "attempt_resident bzip e contents fsz B i")
    case (Inl f)
    with m show ?thesis by simp
  next
    case (Inr a)
    with m obtain st' where b: "body_resident bzip e (Some (fb, 0)) fsz B i ?st0 = Inr st'"
      and s: "step_ok ?st0 i a st'" by auto
    from step_ok_alone [OF s] i b Inr show ?thesis by simp
  qed
qed

lemma parallel_phase_resident_attempts_all:
  assumes s: "is_schedule sched num_blocks" and nb: "num_blocks < 2 ^ 31" and ok: "heap_ok h0"
    and fd: "cells h0 fb = Some contents"
    and nf: "\<forall>i < nat num_blocks. \<exists>st_i. body_resident bzip e (Some (fb, 0)) fsz B i
               \<lparr>blocks = replicate (nat num_blocks) zero_block, compression_errors = 0, hp = h0\<rparr> = Inr st_i"
  shows "\<exists>st. parallel_phase_resident bzip e sched (Some (fb, 0)) fsz B
              \<lparr>blocks = replicate (nat num_blocks) zero_block, compression_errors = 0, hp = h0\<rparr> = Inr st
           \<and> length (blocks st) = nat num_blocks
           \<and> (\<forall>i < nat num_blocks. \<exists>st_i.
                 body_resident bzip e (Some (fb, 0)) fsz B i
                   \<lparr>blocks = replicate (nat num_blocks) zero_block, compression_errors = 0, hp = h0\<rparr> = Inr st_i
                 \<and> view (hp st) (blocks st ! i) = view (hp st_i) (blocks st_i ! i))
           \<and> compression_errors st =
               int (card {i. i < nat num_blocks \<and> (\<exists>st_i.
                 body_resident bzip e (Some (fb, 0)) fsz B i
                   \<lparr>blocks = replicate (nat num_blocks) zero_block, compression_errors = 0, hp = h0\<rparr> = Inr st_i
                 \<and> compression_errors st_i \<noteq> 0)})"
proof -
  let ?n = "nat num_blocks"
  let ?st0 = "\<lparr>blocks = replicate ?n zero_block, compression_errors = 0, hp = h0\<rparr>"
  let ?att = "attempt_resident bzip e contents fsz B"
  let ?body = "body_resident bzip e (Some (fb, 0)) fsz B"
  note alone = body_resident_alone [OF ok fd, of _ ?n bzip e fsz B]
  have al: "\<exists>a st_i. ?att i = Inr a \<and> ?body i ?st0 = Inr st_i
      \<and> view (hp st_i) (blocks st_i ! i) = snd a \<and> (compression_errors st_i \<noteq> 0 \<longleftrightarrow> fst a)"
    if i: "i < ?n" for i
  proof (cases "?att i")
    case (Inl f)
    with alone [OF i] have "?body i ?st0 = Inl f" by simp
    with nf i show ?thesis by auto
  next
    case (Inr a)
    with alone [OF i] show ?thesis by auto
  qed
  then have all: "\<forall>i < ?n. \<exists>a. ?att i = Inr a" by blast
  from parallel_phase_resident_inv(1) [OF s nb ok fd all]
  obtain st where p: "parallel_phase_resident bzip e sched (Some (fb, 0)) fsz B ?st0 = Inr st"
    and inv: "table_inv h0 ?att ?n {..<?n} st" by blast
  from inv have len: "length (blocks st) = ?n"
    and vs: "\<forall>i \<in> {..<?n}. \<exists>a. ?att i = Inr a \<and> view (hp st) (blocks st ! i) = snd a"
    and ce: "compression_errors st = int (card (failures ?att {..<?n}))"
    by (simp_all add: table_inv_def)
  have v: "\<forall>i < ?n. \<exists>st_i. ?body i ?st0 = Inr st_i
                 \<and> view (hp st) (blocks st ! i) = view (hp st_i) (blocks st_i ! i)"
  proof (intro allI impI)
    fix i assume i: "i < ?n"
    from al [OF i] obtain a st_i where "?att i = Inr a" "?body i ?st0 = Inr st_i"
      "view (hp st_i) (blocks st_i ! i) = snd a" by blast
    moreover have "i \<in> {..<?n}" using i by simp
    with vs obtain a' where "?att i = Inr a'" "view (hp st) (blocks st ! i) = snd a'" by blast
    ultimately show "\<exists>st_i. ?body i ?st0 = Inr st_i
                 \<and> view (hp st) (blocks st ! i) = view (hp st_i) (blocks st_i ! i)" by simp
  qed
  have "failures ?att {..<?n} = {i. i < ?n \<and> (\<exists>st_i. ?body i ?st0 = Inr st_i \<and> compression_errors st_i \<noteq> 0)}"
  proof (rule set_eqI)
    fix i
    show "i \<in> failures ?att {..<?n} \<longleftrightarrow> i \<in> {i. i < ?n \<and> (\<exists>st_i. ?body i ?st0 = Inr st_i \<and> compression_errors st_i \<noteq> 0)}"
    proof (cases "i < ?n")
      case False
      then show ?thesis by (simp add: failures_def)
    next
      case True
      from al [OF True] obtain a st_i where a: "?att i = Inr a" and b: "?body i ?st0 = Inr st_i"
        and c: "compression_errors st_i \<noteq> 0 \<longleftrightarrow> fst a" by blast
      have "i \<in> failures ?att {..<?n} \<longleftrightarrow> fst a"
        using True a by (cases a) (auto simp: failures_def)
      with True b c show ?thesis by simp
    qed
  qed
  with ce p len v show ?thesis by simp
qed

section \<open>Independence of the schedule\<close>



section \<open>A failed block\<close>

text \<open>The run after a loop in which a block failed.\<close>

lemma after_loop_ondemand_failed:
  assumes inv: "table_inv h0 att (nat num_blocks) D st" and t: "cells h0 tb \<noteq> None" "heap_ok h0"
    and ce: "compression_errors st \<noteq> 0"
  shows "\<exists>h. after_loop_ondemand e files outp (Some (tb, 0)) num_blocks st =
            Inr (Compression_failed (compression_errors st), files, h)"
proof -
  from inv have "0 \<le> compression_errors st" by (simp add: table_inv_def)
  with ce have "compression_errors st > 0" by simp
  then show ?thesis
    using release_ondemand_safe [OF inv refl t] by (simp add: after_loop_ondemand_def)
qed

lemma after_loop_resident_failed:
  assumes inv: "table_inv h0 att (nat num_blocks) D st" and t: "cells h0 tb \<noteq> None" "heap_ok h0"
    and f: "cells h0 fb \<noteq> None" "fb \<noteq> tb"
    and ce: "compression_errors st \<noteq> 0"
  shows "\<exists>h. after_loop_resident e files outp (Some (tb, 0)) (Some (fb, 0)) num_blocks st =
            Inr (Compression_failed (compression_errors st), files, h)"
proof -
  from inv have "0 \<le> compression_errors st" by (simp add: table_inv_def)
  with ce have "compression_errors st > 0" by simp
  then show ?thesis
    using release_resident_safe [OF inv refl t f] by (simp add: after_loop_resident_def)
qed

text \<open>
  Claim C4 (a run in which a block failed is a failed run and writes no output): when
  the parallel phase of either program, started on a zeroed table in a well-formed heap
  that holds the table (and the loaded file), returns with a counter that is not 0, the
  rest of \<^verbatim>\<open>main\<close> returns through the "Compression failed" exit, whose status
  is 1, with the file system it was given: the writer is not called.
\<close>

theorem failed_block_fails_the_run:
  assumes s: "is_schedule sched num_blocks" and nb: "num_blocks < 2 ^ 31"
    and ok: "heap_ok h0" and t: "cells h0 tb \<noteq> None"
  shows "(parallel_phase_ondemand bzip e sched files inp fsz B
            \<lparr>blocks = replicate (nat num_blocks) zero_block, compression_errors = 0, hp = h0\<rparr> = Inr st
          \<and> compression_errors st \<noteq> 0
          \<longrightarrow> (\<exists>h. after_loop_ondemand e files outp (Some (tb, 0)) num_blocks st =
                  Inr (Compression_failed (compression_errors st), files, h))
              \<and> exit_status (Compression_failed (compression_errors st)) = 1)
       \<and> (cells h0 fb = Some contents \<and> fb \<noteq> tb
          \<and> parallel_phase_resident bzip e sched (Some (fb, 0)) fsz B
            \<lparr>blocks = replicate (nat num_blocks) zero_block, compression_errors = 0, hp = h0\<rparr> = Inr st'
          \<and> compression_errors st' \<noteq> 0
          \<longrightarrow> (\<exists>h. after_loop_resident e files outp (Some (tb, 0)) (Some (fb, 0)) num_blocks st' =
                  Inr (Compression_failed (compression_errors st'), files, h))
              \<and> exit_status (Compression_failed (compression_errors st')) = 1)"
proof (intro conjI impI)
  assume a: "parallel_phase_ondemand bzip e sched files inp fsz B
            \<lparr>blocks = replicate (nat num_blocks) zero_block, compression_errors = 0, hp = h0\<rparr> = Inr st
          \<and> compression_errors st \<noteq> 0"
  from parallel_phase_ondemand_inv [OF s nb ok, of bzip e files inp fsz B] a
  have "table_inv h0 (\<lambda>i. Inr (attempt_ondemand bzip e files inp fsz B i)) (nat num_blocks)
                {..<nat num_blocks} st" by auto
  from after_loop_ondemand_failed [OF this t ok] a
  show "\<exists>h. after_loop_ondemand e files outp (Some (tb, 0)) num_blocks st =
                  Inr (Compression_failed (compression_errors st), files, h)" by simp
next
  assume a: "cells h0 fb = Some contents \<and> fb \<noteq> tb
          \<and> parallel_phase_resident bzip e sched (Some (fb, 0)) fsz B
            \<lparr>blocks = replicate (nat num_blocks) zero_block, compression_errors = 0, hp = h0\<rparr> = Inr st'
          \<and> compression_errors st' \<noteq> 0"
  then have fd: "cells h0 fb = Some contents" and ne: "fb \<noteq> tb" by simp_all
  have inv: "table_inv h0 (attempt_resident bzip e contents fsz B) (nat num_blocks) {..<nat num_blocks} st'"
  proof (cases "\<forall>i < nat num_blocks. \<exists>a. attempt_resident bzip e contents fsz B i = Inr a")
    case True
    from parallel_phase_resident_inv(1) [OF s nb ok fd True] a show ?thesis by auto
  next
    case False
    from parallel_phase_resident_inv(2) [OF s nb ok fd False] a show ?thesis by simp
  qed
  have "cells h0 fb \<noteq> None" using fd by simp
  from after_loop_resident_failed [OF inv t ok this ne] a
  show "\<exists>h. after_loop_resident e files outp (Some (tb, 0)) (Some (fb, 0)) num_blocks st' =
                  Inr (Compression_failed (compression_errors st'), files, h)" by simp
qed simp_all

section \<open>Completed runs\<close>













section \<open>The writer, the command line, a missing input, \<^verbatim>\<open>realloc\<close>\<close>

text \<open>
  What the writer does with a table whose entries \<open>0, \<dots>, num_blocks - 1\<close> each point
  at \<^verbatim>\<open>size\<close> bytes \<open>pl i\<close>.  It passes the payloads to the stream in the order of the
  indices and nothing else, and returns -1 at the first \<^verbatim>\<open>fwrite\<close> that returns less
  than \<^verbatim>\<open>size\<close>, or when the file does not open.  The file holds the part of the
  stream that could be flushed.
\<close>

lemma write_bzip2_file_stream:
  assumes "\<forall>i < nat num_blocks. payload_of h (blks ! i) = Some (pl i)
             \<and> size_c (blks ! i) = int (length (pl i))"
  shows "(fopen_out_ok e \<and> (\<forall>i < nat num_blocks. length (pl i) \<le> fwrite_room e i)
            \<longrightarrow> write_bzip2_file e h files outp blks num_blocks =
                  Inr (0, files(outp \<mapsto> take (flush_room e) (concat (map pl [0 ..< nat num_blocks])))))
       \<and> (\<not> fopen_out_ok e \<longrightarrow> write_bzip2_file e h files outp blks num_blocks = Inr (- 1, files))
       \<and> (fopen_out_ok e \<and> k < nat num_blocks \<and> fwrite_room e k < length (pl k)
            \<and> (\<forall>i < k. length (pl i) \<le> fwrite_room e i)
            \<longrightarrow> write_bzip2_file e h files outp blks num_blocks =
                  Inr (- 1, files(outp \<mapsto>
                    take (flush_room e) (concat (map pl [0 ..< k]) @ take (fwrite_room e k) (pl k)))))"
proof (intro conjI impI)
  assume a: "fopen_out_ok e \<and> (\<forall>i < nat num_blocks. length (pl i) \<le> fwrite_room e i)"
  have "write_loop (fwrite_room e) h blks (nat num_blocks) 0 [] =
      Inr (0, [] @ concat (map pl [0 ..< nat num_blocks]))"
    using assms a by (intro write_loop_full) auto
  with a show "write_bzip2_file e h files outp blks num_blocks =
      Inr (0, files(outp \<mapsto> take (flush_room e) (concat (map pl [0 ..< nat num_blocks]))))"
    by (simp add: write_bzip2_file_unfold)
next
  assume "\<not> fopen_out_ok e"
  then show "write_bzip2_file e h files outp blks num_blocks = Inr (- 1, files)"
    by (simp add: write_bzip2_file_unfold)
next
  assume a: "fopen_out_ok e \<and> k < nat num_blocks \<and> fwrite_room e k < length (pl k)
            \<and> (\<forall>i < k. length (pl i) \<le> fwrite_room e i)"
  have "write_loop (fwrite_room e) h blks (nat num_blocks) 0 [] =
      Inr (- 1, [] @ concat (map pl [0 ..< k]) @ take (fwrite_room e k) (pl k))"
    using assms a by (intro write_loop_short) auto
  with a show "write_bzip2_file e h files outp blks num_blocks =
      Inr (- 1, files(outp \<mapsto>
        take (flush_room e) (concat (map pl [0 ..< k]) @ take (fwrite_room e k) (pl k))))"
    by (simp add: write_bzip2_file_unfold)
qed

text \<open>When the whole stream can be flushed, the file is the concatenation of the payloads.\<close>

lemma write_bzip2_file_flushed:
  assumes "\<forall>i < nat num_blocks. payload_of h (blks ! i) = Some (pl i)
             \<and> size_c (blks ! i) = int (length (pl i))"
    and "fopen_out_ok e" and "\<forall>i < nat num_blocks. length (pl i) \<le> fwrite_room e i"
    and "length (concat (map pl [0 ..< nat num_blocks])) \<le> flush_room e"
  shows "write_bzip2_file e h files outp blks num_blocks =
           Inr (0, files(outp \<mapsto> concat (map pl [0 ..< nat num_blocks])))"
  using write_bzip2_file_stream [OF assms(1), of e files outp] assms(2-4) by simp

text \<open>
  The value of \<^verbatim>\<open>fclose\<close> is the only sign of a stream that could not be flushed,
  and the writer drops it: whenever every \<^verbatim>\<open>fwrite\<close> took its block, the writer
  returns 0, whatever reached the file.
\<close>

lemma write_bzip2_file_returns_0:
  assumes "\<forall>i < nat num_blocks. payload_of h (blks ! i) = Some (pl i)
             \<and> size_c (blks ! i) = int (length (pl i))"
    and "fopen_out_ok e" and "\<forall>i < nat num_blocks. length (pl i) \<le> fwrite_room e i"
  shows "\<exists>files'. write_bzip2_file e h files outp blks num_blocks = Inr (0, files')"
  using write_bzip2_file_stream [OF assms(1), of e files outp] assms(2,3) by simp

lemma parse_opts_accepted:
  "\<forall>w \<in> set vs. 0 < w \<Longrightarrow>
     parse_opts (map Opt_b vs @ rest) kb = parse_opts rest (if vs = [] then kb else last vs)"
  by (induction vs arbitrary: kb) auto

lemma parse_opts_rejects:
  "Opt_b v \<in> set opts \<Longrightarrow> v \<le> 0 \<Longrightarrow>
     parse_opts opts kb = Inl Invalid_block_size \<or> parse_opts opts kb = Inl Usage"
proof (induction opts arbitrary: kb)
  case Nil
  then show ?case by simp
next
  case (Cons a opts)
  then show ?case by (cases a) auto
qed

text \<open>
  Claim C8 (a block size that is not positive is rejected before any I/O; a positive
  one passes): when the options up to a \<^verbatim>\<open>-b v\<close> with \<open>v \<le> 0\<close> are \<^verbatim>\<open>-b\<close> options
  with positive values, both programs return through the "Invalid block size" exit,
  whose status is 1, with the files untouched and nothing allocated; for every
  \<open>kb > 0\<close> the command line \<^verbatim>\<open>-b kb in out\<close> passes the checks and the pipeline
  runs.
\<close>

theorem nonpositive_block_size_rejected:
  "(v \<le> 0 \<and> (\<forall>w \<in> set vs. 0 < w)
      \<longrightarrow> main_resident bzip e sched (map Opt_b vs @ Opt_b v # rest) operands files =
            Inr (Invalid_block_size, files, empty_heap)
        \<and> main_ondemand bzip e sched (map Opt_b vs @ Opt_b v # rest) operands files =
            Inr (Invalid_block_size, files, empty_heap)
        \<and> exit_status Invalid_block_size = 1)
   \<and> (v \<le> 0 \<and> Opt_b v \<in> set opts
      \<longrightarrow> (\<exists>x. (x = Invalid_block_size \<or> x = Usage) \<and> exit_status x = 1
            \<and> main_resident bzip e sched opts operands files = Inr (x, files, empty_heap)
            \<and> main_ondemand bzip e sched opts operands files = Inr (x, files, empty_heap)))
   \<and> (0 < kb
      \<longrightarrow> parse_args [Opt_b kb] [inp, outp] =
            Inr \<lparr>block_size_kb = kb, input_path = inp, output_path = outp\<rparr>
        \<and> main_resident bzip e sched [Opt_b kb] [inp, outp] files =
            pipeline_resident bzip e sched \<lparr>block_size_kb = kb, input_path = inp, output_path = outp\<rparr> files
        \<and> main_ondemand bzip e sched [Opt_b kb] [inp, outp] files =
            pipeline_ondemand bzip e sched \<lparr>block_size_kb = kb, input_path = inp, output_path = outp\<rparr> files)"
proof (intro conjI impI)
  assume a: "v \<le> 0 \<and> (\<forall>w \<in> set vs. 0 < w)"
  then have "parse_opts (map Opt_b vs @ Opt_b v # rest) 900 = Inl Invalid_block_size"
    by (simp add: parse_opts_accepted)
  then have p: "parse_args (map Opt_b vs @ Opt_b v # rest) operands = Inl Invalid_block_size"
    by (simp add: parse_args_def)
  show "main_resident bzip e sched (map Opt_b vs @ Opt_b v # rest) operands files =
            Inr (Invalid_block_size, files, empty_heap)"
    by (simp add: main_resident_def p)
  show "main_ondemand bzip e sched (map Opt_b vs @ Opt_b v # rest) operands files =
            Inr (Invalid_block_size, files, empty_heap)"
    by (simp add: main_ondemand_def p)
next
  assume a: "v \<le> 0 \<and> Opt_b v \<in> set opts"
  then have "parse_opts opts 900 = Inl Invalid_block_size \<or> parse_opts opts 900 = Inl Usage"
    by (intro parse_opts_rejects) auto
  then obtain x where x: "x = Invalid_block_size \<or> x = Usage" and "parse_opts opts 900 = Inl x"
    by blast
  then have p: "parse_args opts operands = Inl x" by (simp add: parse_args_def)
  have "exit_status x = 1" using x by auto
  with x show "\<exists>x. (x = Invalid_block_size \<or> x = Usage) \<and> exit_status x = 1
            \<and> main_resident bzip e sched opts operands files = Inr (x, files, empty_heap)
            \<and> main_ondemand bzip e sched opts operands files = Inr (x, files, empty_heap)"
    by (auto simp: main_resident_def main_ondemand_def p)
next
  assume kb: "0 < kb"
  then show p: "parse_args [Opt_b kb] [inp, outp] =
            Inr \<lparr>block_size_kb = kb, input_path = inp, output_path = outp\<rparr>"
    by (simp add: parse_args_def)
  show "main_resident bzip e sched [Opt_b kb] [inp, outp] files =
            pipeline_resident bzip e sched \<lparr>block_size_kb = kb, input_path = inp, output_path = outp\<rparr> files"
    by (simp add: main_resident_def p)
  show "main_ondemand bzip e sched [Opt_b kb] [inp, outp] files =
            pipeline_ondemand bzip e sched \<lparr>block_size_kb = kb, input_path = inp, output_path = outp\<rparr> files"
    by (simp add: main_ondemand_def p)
qed simp

lemma BLOCK_SIZE_in_range: "0 < kb \<Longrightarrow> kb < 2 ^ 21 \<Longrightarrow> BLOCK_SIZE_of kb = kb * 1024"
  by (simp add: BLOCK_SIZE_of_def s32_id)

lemma num_blocks_missing_file:
  assumes "0 < kb" "kb < 2 ^ 21"
  shows "num_blocks_of (- 1) (BLOCK_SIZE_of kb) = 0"
proof -
  have B: "BLOCK_SIZE_of kb = kb * 1024" using assms by (rule BLOCK_SIZE_in_range)
  have "s64 (s64 (- 1 + kb * 1024) - 1) = kb * 1024 - 2"
    using assms by (simp add: s64_id)
  moreover have "c_div (kb * 1024 - 2) (kb * 1024) = 0"
    using assms by (simp add: c_div_nonneg div_pos_pos_trivial)
  ultimately show ?thesis by (simp add: num_blocks_of_def B s32_def)
qed

text \<open>
  Claim C9 (the on-demand program reports no error for a missing input): when the
  input does not exist, the block size is one that \<^verbatim>\<open>int BLOCK_SIZE\<close> can hold
  (\<open>0 < kb < 2^21\<close>), and \<^verbatim>\<open>calloc\<close> and the \<^verbatim>\<open>fopen\<close> of the output succeed, then
  the size is -1, there are 0 blocks, the loop does nothing and leaves the counter at 0,
  an empty output file is written and \<^verbatim>\<open>main\<close> returns 0.
\<close>

theorem missing_input_ondemand_completes:
  assumes "files inp = None" and "0 < kb" and "kb < 2 ^ 21"
    and "calloc_ok e" and "fopen_out_ok e"
    and "is_schedule sched (num_blocks_of (get_file_size files inp) (BLOCK_SIZE_of kb))"
  shows "get_file_size files inp = - 1
       \<and> num_blocks_of (get_file_size files inp) (BLOCK_SIZE_of kb) = 0
       \<and> sched = []
       \<and> parallel_phase_ondemand bzip e sched files inp (- 1) (BLOCK_SIZE_of kb)
            \<lparr>blocks = [], compression_errors = 0, hp = h0\<rparr> =
          Inr \<lparr>blocks = [], compression_errors = 0, hp = h0\<rparr>
       \<and> (\<exists>h. pipeline_ondemand bzip e sched
                 \<lparr>block_size_kb = kb, input_path = inp, output_path = outp\<rparr> files =
               Inr (Completed, files(outp \<mapsto> []), h))
       \<and> exit_status Completed = 0"
proof -
  have fs: "get_file_size files inp = - 1" using assms(1) by (simp add: get_file_size_def)
  have nb: "num_blocks_of (- 1) (BLOCK_SIZE_of kb) = 0" using assms(2,3) by (rule num_blocks_missing_file)
  have s: "sched = []" using assms(6) by (simp add: fs nb is_schedule_def)
  have B: "BLOCK_SIZE_of kb \<noteq> 0" using assms(2,3) by (simp add: BLOCK_SIZE_in_range)
  have c: "calloc (calloc_ok e) 0 16 empty_heap =
      (Some (0, 0), \<lparr>cells = (\<lambda>_. None)(0 \<mapsto> []), next_id = Suc 0\<rparr>)"
    using assms(4) by (simp add: calloc_def malloc_def empty_heap_def)
  have "pipeline_ondemand bzip e [] \<lparr>block_size_kb = kb, input_path = inp, output_path = outp\<rparr> files =
      Inr (Completed, files(outp \<mapsto> []), \<lparr>cells = (\<lambda>_. None)(0 := None), next_id = Suc 0\<rparr>)"
    using B assms(5)
    by (simp add: pipeline_ondemand_def Let_def fs nb c parallel_phase_ondemand_def
        after_loop_ondemand_def write_bzip2_file_unfold write_loop.simps [of _ _ _ 0 0]
        release_ondemand_def cleanup_blocks_def cleanup_loop.simps [of _ 0 0] free_def)
  then show ?thesis
    by (simp add: fs nb s parallel_phase_ondemand_def)
qed

text \<open>compress_block: what is true of its results.\<close>

lemma compress_block_failure_leaves_NULL:
  assumes "compress_block bzip be input n outb h = Inr (r, blk, h')" and "r \<noteq> 0"
  shows "data blk = None"
  using assms
  by (auto simp: compress_block_def Let_def malloc_def split: if_splits option.splits sum.splits prod.splits)

lemma compress_block_success_with_realloc:
  assumes "compress_block bzip be input n outb h = Inr (0, blk, h')" and "realloc_ok be"
  shows "data blk \<noteq> None \<and> (\<exists>source. size_c blk = int (length (bzip source)) \<and> payload_of h' blk = Some (bzip source))"
  using assms
  by (auto simp: compress_block_def Let_def malloc_def BZ2_bzBuffToBuffCompress_def BZ_OK_def
      BZ_MEM_ERROR_def BZ_OUTBUFF_FULL_def realloc_def store_def payload_of_def load_def
      split: if_splits option.splits sum.splits prod.splits)

text \<open>
  Claim C10 (\<^verbatim>\<open>compress_block\<close> leaves \<^verbatim>\<open>data\<close> non-NULL on success): the result
  of the final \<^verbatim>\<open>realloc\<close> is stored without a check.  With a source of three bytes,
  every call succeeding but that \<^verbatim>\<open>realloc\<close>, \<^verbatim>\<open>compress_block\<close> returns 0 with
  \<^verbatim>\<open>data\<close> NULL and \<^verbatim>\<open>size\<close> 3, and the buffer stays allocated with no pointer to
  it.  (The other parts of the claim hold: see \<open>compress_block_failure_leaves_NULL\<close>,
  \<open>compress_block_success_with_realloc\<close> and \<open>cleanup_blocks_safe\<close>.)
\<close>

theorem compress_block_unchecked_realloc:
  "\<exists>blk h'. compress_block toy_bzip (block_all_ok\<lparr>realloc_ok := False\<rparr>) (Some (0, 0)) 3
               zero_block heap_with_input = Inr (0, blk, h')
      \<and> data blk = None \<and> size_c blk = 3 \<and> cells h' 1 \<noteq> None"
  by (simp add: compress_block_def Let_def malloc_def BZ2_bzBuffToBuffCompress_def BZ_OK_def
      realloc_def store_def load_def toy_bzip_def block_all_ok_def heap_with_input_def
      zero_block_def u32_def)

section \<open>Schedules, and runs on the example inputs\<close>



lemmas example_defs =
  example_files_def example_config_def get_file_size_def BLOCK_SIZE_of_def
  num_blocks_of_def s32_def s64_def c_div_def calloc_def malloc_def empty_heap_def env_all_ok_def
  block_all_ok_def env_block1_fails_def example_heap_def
  parallel_phase_ondemand_def body_ondemand_def parallel_phase_resident_def body_resident_def
  fopen_rb_def offset_ondemand_def offset_resident_def block_size_at_def u32_def ptr_add_def
  store_def compress_block_def load_def BZ2_bzBuffToBuffCompress_def BZ_OK_def BZ_MEM_ERROR_def
  BZ_OUTBUFF_FULL_def toy_bzip_def realloc_def free_def
  zero_block_def after_loop_ondemand_def after_loop_resident_def write_bzip2_file_def
  fwrite_source_def fclose_def EOF_def write_loop.simps
  release_ondemand_def release_resident_def
  cleanup_blocks_def cleanup_loop.simps count_error_def pipeline_ondemand_def pipeline_resident_def Let_def

lemma example_heap_ok: "heap_ok example_heap"
  by (simp add: heap_ok_def example_heap_def)

lemma all_less_2: "(\<forall>i < 2. P i) \<longleftrightarrow> P (0::nat) \<and> P 1"
  by (auto simp: less_2_cases_iff)




text \<open>
  An attempt reports a failure exactly when one of the calls of the iteration fails:
  the \<^verbatim>\<open>fopen\<close> of the input, the \<^verbatim>\<open>malloc\<close> of the block buffer, the read (fewer
  bytes than the block has), the \<^verbatim>\<open>malloc\<close> of the output buffer, or the compressor
  (for lack of memory, or of room in the output buffer).
\<close>

lemma attempt_ondemand_fails_iff:
  "fst (attempt_ondemand bzip e files inp fsz B i) \<longleftrightarrow>
     (case files inp of
        None \<Rightarrow> True
      | Some contents \<Rightarrow>
          (let offset = offset_ondemand (int i) B;
               block_size = block_size_at fsz B offset;
               got = take (nat block_size) (drop (nat offset) contents)
           in \<not> fopen_ok (per_block e i) \<or> \<not> malloc_block_ok (per_block e i)
              \<or> int (length got) \<noteq> block_size
              \<or> \<not> malloc_out_ok (per_block e i) \<or> \<not> bz_mem_ok (per_block e i)
              \<or> nat (u32 (block_size + block_size div 100 + 600)) < length (bzip got)))"
  by (auto simp: attempt_ondemand_def fopen_rb_def compressed_def Let_def split: option.splits)

lemma attempt_resident_fails_iff:
  assumes "attempt_resident bzip e contents fsz B i = Inr a"
  shows "fst a \<longleftrightarrow>
     (let offset = offset_resident (int i) B;
          block_size = block_size_at fsz B offset;
          source = take (nat block_size) (drop (nat offset) contents)
      in \<not> malloc_out_ok (per_block e i) \<or> \<not> bz_mem_ok (per_block e i)
         \<or> nat (u32 (int (length source) + int (length source) div 100 + 600)) < length (bzip source))"
  using assms
  by (auto simp: attempt_resident_def compressed_def Let_def zero_view_def split: if_splits)

text \<open>
  Claim C6 (the parallel phase attempts every block once, records its success or
  failure, and does not stop at a failure): for every schedule of the indices, the
  on-demand loop started on a zeroed table returns; in the table it returns, the entry
  of every index shows the outcome of the attempt on that index (\<open>attempt_ondemand\<close>:
  the compressed block, or what the failed \<^verbatim>\<open>fopen\<close>, \<^verbatim>\<open>malloc\<close>, read or compressor
  call leaves), whatever happened at the other indices, and the counter is the number
  of indices whose attempt failed.  The same holds for the resident loop
  (\<open>attempt_resident\<close>) when no iteration faults, that is, none reads beyond the loaded
  file.
\<close>

theorem parallel_phase_attempts_every_block:
  assumes "is_schedule sched num_blocks" and "num_blocks < 2 ^ 31" and "heap_ok h0"
  shows "(\<exists>st. parallel_phase_ondemand bzip e sched files inp fsz B
              \<lparr>blocks = replicate (nat num_blocks) zero_block, compression_errors = 0, hp = h0\<rparr> = Inr st
           \<and> length (blocks st) = nat num_blocks
           \<and> (\<forall>i < nat num_blocks.
                 view (hp st) (blocks st ! i) = snd (attempt_ondemand bzip e files inp fsz B i))
           \<and> compression_errors st =
               int (card {i. i < nat num_blocks \<and> fst (attempt_ondemand bzip e files inp fsz B i)}))
       \<and> (cells h0 fb = Some contents
           \<and> (\<forall>i < nat num_blocks. \<exists>a. attempt_resident bzip e contents fsz B i = Inr a)
          \<longrightarrow> (\<exists>st. parallel_phase_resident bzip e sched (Some (fb, 0)) fsz B
              \<lparr>blocks = replicate (nat num_blocks) zero_block, compression_errors = 0, hp = h0\<rparr> = Inr st
           \<and> length (blocks st) = nat num_blocks
           \<and> (\<forall>i < nat num_blocks. \<exists>failed.
                 attempt_resident bzip e contents fsz B i = Inr (failed, view (hp st) (blocks st ! i)))
           \<and> compression_errors st =
               int (card {i. i < nat num_blocks
                 \<and> (\<exists>v. attempt_resident bzip e contents fsz B i = Inr (True, v))})))"
proof (intro conjI impI)
  let ?n = "nat num_blocks"
  let ?att = "\<lambda>i. Inr (attempt_ondemand bzip e files inp fsz B i) :: fault + bool \<times> entry_view"
  from parallel_phase_ondemand_inv [OF assms, of bzip e files inp fsz B]
  obtain st where p: "parallel_phase_ondemand bzip e sched files inp fsz B
              \<lparr>blocks = replicate ?n zero_block, compression_errors = 0, hp = h0\<rparr> = Inr st"
    and inv: "table_inv h0 ?att ?n {..<?n} st" by blast
  from inv have len: "length (blocks st) = ?n"
    and vs: "\<forall>i \<in> {..<?n}. \<exists>a. ?att i = Inr a \<and> view (hp st) (blocks st ! i) = snd a"
    and ce: "compression_errors st = int (card (failures ?att {..<?n}))"
    by (simp_all add: table_inv_def)
  have v: "\<forall>i < ?n. view (hp st) (blocks st ! i) = snd (attempt_ondemand bzip e files inp fsz B i)"
    using vs by auto
  have fst_iff: "(\<exists>p sz os. x = (True, p, sz, os)) \<longleftrightarrow> fst x" for x :: "bool \<times> entry_view"
    by (cases x) auto
  have "failures ?att {..<?n} = {i. i < ?n \<and> fst (attempt_ondemand bzip e files inp fsz B i)}"
    unfolding failures_def by (simp add: fst_iff)
  with ce have "compression_errors st =
      int (card {i. i < ?n \<and> fst (attempt_ondemand bzip e files inp fsz B i)})" by simp
  with p len v show "\<exists>st. parallel_phase_ondemand bzip e sched files inp fsz B
              \<lparr>blocks = replicate ?n zero_block, compression_errors = 0, hp = h0\<rparr> = Inr st
           \<and> length (blocks st) = ?n
           \<and> (\<forall>i < ?n. view (hp st) (blocks st ! i) = snd (attempt_ondemand bzip e files inp fsz B i))
           \<and> compression_errors st =
               int (card {i. i < ?n \<and> fst (attempt_ondemand bzip e files inp fsz B i)})"
    by (intro exI [of _ st] conjI)
next
  let ?n = "nat num_blocks"
  let ?att = "attempt_resident bzip e contents fsz B"
  assume a: "cells h0 fb = Some contents \<and> (\<forall>i < ?n. \<exists>a. ?att i = Inr a)"
  then have fd: "cells h0 fb = Some contents" and all: "\<forall>i < ?n. \<exists>a. ?att i = Inr a" by simp_all
  from parallel_phase_resident_inv(1) [OF assms fd all]
  obtain st where p: "parallel_phase_resident bzip e sched (Some (fb, 0)) fsz B
              \<lparr>blocks = replicate ?n zero_block, compression_errors = 0, hp = h0\<rparr> = Inr st"
    and inv: "table_inv h0 ?att ?n {..<?n} st" by blast
  from inv have len: "length (blocks st) = ?n"
    and vs: "\<forall>i \<in> {..<?n}. \<exists>a. ?att i = Inr a \<and> view (hp st) (blocks st ! i) = snd a"
    and ce: "compression_errors st = int (card (failures ?att {..<?n}))"
    by (simp_all add: table_inv_def)
  have v: "\<forall>i < ?n. \<exists>failed. ?att i = Inr (failed, view (hp st) (blocks st ! i))"
  proof (intro allI impI)
    fix i assume "i < ?n"
    then have "i \<in> {..<?n}" by simp
    with vs obtain a where "?att i = Inr a" "view (hp st) (blocks st ! i) = snd a" by blast
    then have "?att i = Inr (fst a, view (hp st) (blocks st ! i))" by simp
    then show "\<exists>failed. ?att i = Inr (failed, view (hp st) (blocks st ! i))" by blast
  qed
  have "failures ?att {..<?n} = {i. i < ?n \<and> (\<exists>v. ?att i = Inr (True, v))}"
    unfolding failures_def by simp
  with ce have "compression_errors st = int (card {i. i < ?n \<and> (\<exists>v. ?att i = Inr (True, v))})"
    by simp
  with p len v show "\<exists>st. parallel_phase_resident bzip e sched (Some (fb, 0)) fsz B
              \<lparr>blocks = replicate ?n zero_block, compression_errors = 0, hp = h0\<rparr> = Inr st
           \<and> length (blocks st) = ?n
           \<and> (\<forall>i < ?n. \<exists>failed. ?att i = Inr (failed, view (hp st) (blocks st ! i)))
           \<and> compression_errors st = int (card {i. i < ?n \<and> (\<exists>v. ?att i = Inr (True, v))})"
    by (intro exI [of _ st] conjI)
qed

text \<open>The attempts of the example: block 0 is compressed, the compressor fails on block 1.\<close>

lemma example_attempts_ondemand:
  "attempt_ondemand toy_bzip env_block1_fails example_files ''in'' 1025 1024 0 =
     (False, Some [66, 90, 7], 3, 1024)"
  "attempt_ondemand toy_bzip env_block1_fails example_files ''in'' 1025 1024 1 =
     (True, None, 601, 1)"
  by (simp_all add: attempt_ondemand_def compressed_def example_defs)

lemma example_attempts_resident:
  "attempt_resident toy_bzip env_block1_fails (replicate 1025 7) 1025 1024 0 =
     Inr (False, Some [66, 90, 7], 3, 1024)"
  "attempt_resident toy_bzip env_block1_fails (replicate 1025 7) 1025 1024 1 =
     Inr (True, None, 601, 1)"
  by (simp_all add: attempt_resident_def compressed_def example_defs)

lemma example_failed_indices:
  "{i. i < nat 2 \<and> fst (attempt_ondemand toy_bzip env_block1_fails example_files ''in'' 1025 1024 i)} = {1}"
  "{i. i < nat 2 \<and> (\<exists>v. attempt_resident toy_bzip env_block1_fails (replicate 1025 7) 1025 1024 i
       = Inr (True, v))} = {1}"
  using example_attempts_ondemand example_attempts_resident
  by (auto simp: less_2_cases_iff)

theorem parallel_phase_attempts_every_block_witness:
  "(\<exists>st. parallel_phase_ondemand toy_bzip env_block1_fails [1, 0] example_files ''in'' 1025 1024
            \<lparr>blocks = replicate (nat 2) zero_block, compression_errors = 0, hp = example_heap\<rparr> = Inr st
        \<and> length (blocks st) = 2
        \<and> view (hp st) (blocks st ! 0) = (Some [66, 90, 7], 3, 1024)
        \<and> view (hp st) (blocks st ! 1) = (None, 601, 1)
        \<and> compression_errors st = 1)
   \<and> (\<exists>st. parallel_phase_resident toy_bzip env_block1_fails [1, 0] (Some (1, 0)) 1025 1024
            \<lparr>blocks = replicate (nat 2) zero_block, compression_errors = 0, hp = example_heap\<rparr> = Inr st
        \<and> length (blocks st) = 2
        \<and> view (hp st) (blocks st ! 0) = (Some [66, 90, 7], 3, 1024)
        \<and> view (hp st) (blocks st ! 1) = (None, 601, 1)
        \<and> compression_errors st = 1)"
proof -
  have s: "is_schedule [1, 0] 2" by (simp add: is_schedule_def upt_rec)
  have n: "(2::int) < 2 ^ 31" by simp
  have c: "cells example_heap 1 = Some (replicate 1025 7)" by (simp add: example_heap_def)
  have i01: "(0::nat) < nat 2" "(1::nat) < nat 2" by simp_all
  have r: "\<forall>i < nat 2. \<exists>a. attempt_resident toy_bzip env_block1_fails (replicate 1025 7) 1025 1024 i = Inr a"
  proof (intro allI impI)
    fix i :: nat assume "i < nat 2"
    then have "i = 0 \<or> i = 1" by auto
    then show "\<exists>a. attempt_resident toy_bzip env_block1_fails (replicate 1025 7) 1025 1024 i = Inr a"
      using example_attempts_resident by auto
  qed
  note t = parallel_phase_attempts_every_block [OF s n example_heap_ok,
      of toy_bzip env_block1_fails example_files "''in''" 1025 1024 1 "replicate 1025 7"]
  from t obtain st where p: "parallel_phase_ondemand toy_bzip env_block1_fails [1, 0] example_files ''in'' 1025 1024
        \<lparr>blocks = replicate (nat 2) zero_block, compression_errors = 0, hp = example_heap\<rparr> = Inr st"
    and l: "length (blocks st) = nat 2"
    and v: "\<forall>i < nat 2. view (hp st) (blocks st ! i) =
        snd (attempt_ondemand toy_bzip env_block1_fails example_files ''in'' 1025 1024 i)"
    and ce: "compression_errors st = int (card {i. i < nat 2 \<and>
        fst (attempt_ondemand toy_bzip env_block1_fails example_files ''in'' 1025 1024 i)})"
    by blast
  from v i01(1) have "view (hp st) (blocks st ! 0) =
      snd (attempt_ondemand toy_bzip env_block1_fails example_files ''in'' 1025 1024 0)" by blast
  then have v0: "view (hp st) (blocks st ! 0) = (Some [66, 90, 7], 3, 1024)"
    unfolding example_attempts_ondemand by simp
  from v i01(2) have "view (hp st) (blocks st ! 1) =
      snd (attempt_ondemand toy_bzip env_block1_fails example_files ''in'' 1025 1024 1)" by blast
  then have v1: "view (hp st) (blocks st ! 1) = (None, 601, 1)"
    unfolding example_attempts_ondemand by simp
  from ce have ce1: "compression_errors st = 1"
    unfolding example_failed_indices by simp
  from l have l2: "length (blocks st) = 2" by simp
  from t c r obtain st' where p': "parallel_phase_resident toy_bzip env_block1_fails [1, 0] (Some (1, 0)) 1025 1024
        \<lparr>blocks = replicate (nat 2) zero_block, compression_errors = 0, hp = example_heap\<rparr> = Inr st'"
    and l': "length (blocks st') = nat 2"
    and v': "\<forall>i < nat 2. \<exists>failed. attempt_resident toy_bzip env_block1_fails (replicate 1025 7) 1025 1024 i =
        Inr (failed, view (hp st') (blocks st' ! i))"
    and ce': "compression_errors st' = int (card {i. i < nat 2 \<and>
        (\<exists>v. attempt_resident toy_bzip env_block1_fails (replicate 1025 7) 1025 1024 i = Inr (True, v))})"
    by blast
  from v' i01(1) have "\<exists>failed. attempt_resident toy_bzip env_block1_fails (replicate 1025 7) 1025 1024 0 =
        Inr (failed, view (hp st') (blocks st' ! 0))" by blast
  then have v0': "view (hp st') (blocks st' ! 0) = (Some [66, 90, 7], 3, 1024)"
    unfolding example_attempts_resident by simp
  from v' i01(2) have "\<exists>failed. attempt_resident toy_bzip env_block1_fails (replicate 1025 7) 1025 1024 1 =
        Inr (failed, view (hp st') (blocks st' ! 1))" by blast
  then have v1': "view (hp st') (blocks st' ! 1) = (None, 601, 1)"
    unfolding example_attempts_resident by simp
  from ce' have ce1': "compression_errors st' = 1"
    unfolding example_failed_indices by simp
  from l' have l2': "length (blocks st') = 2" by simp
  from p l2 v0 v1 ce1 p' l2' v0' v1' ce1' show ?thesis by blast
qed

lemma example_phases_fail:
  "\<exists>st. parallel_phase_ondemand toy_bzip env_block1_fails [1, 0] example_files ''in'' 1025 1024
            \<lparr>blocks = replicate (nat 2) zero_block, compression_errors = 0, hp = example_heap\<rparr> = Inr st
        \<and> compression_errors st \<noteq> 0"
  "\<exists>st. parallel_phase_resident toy_bzip env_block1_fails [1, 0] (Some (1, 0)) 1025 1024
            \<lparr>blocks = replicate (nat 2) zero_block, compression_errors = 0, hp = example_heap\<rparr> = Inr st
        \<and> compression_errors st \<noteq> 0"
  by (simp_all add: example_defs)

theorem failed_block_fails_the_run_witness:
  "(\<exists>st h. parallel_phase_ondemand toy_bzip env_block1_fails [1, 0] example_files ''in'' 1025 1024
            \<lparr>blocks = replicate (nat 2) zero_block, compression_errors = 0, hp = example_heap\<rparr> = Inr st
        \<and> compression_errors st \<noteq> 0
        \<and> after_loop_ondemand env_block1_fails example_files ''out'' (Some (0, 0)) 2 st =
            Inr (Compression_failed (compression_errors st), example_files, h)
        \<and> exit_status (Compression_failed (compression_errors st)) = 1)
   \<and> (\<exists>st h. parallel_phase_resident toy_bzip env_block1_fails [1, 0] (Some (1, 0)) 1025 1024
            \<lparr>blocks = replicate (nat 2) zero_block, compression_errors = 0, hp = example_heap\<rparr> = Inr st
        \<and> compression_errors st \<noteq> 0
        \<and> after_loop_resident env_block1_fails example_files ''out'' (Some (0, 0)) (Some (1, 0)) 2 st =
            Inr (Compression_failed (compression_errors st), example_files, h)
        \<and> exit_status (Compression_failed (compression_errors st)) = 1)"
proof -
  have s: "is_schedule [1, 0] 2" by (simp add: is_schedule_def upt_rec)
  have n: "(2::int) < 2 ^ 31" by simp
  have t: "cells example_heap 0 \<noteq> None" by (simp add: example_heap_def)
  have c: "cells example_heap 1 = Some (replicate 1025 7)" "(1::nat) \<noteq> 0"
    by (simp_all add: example_heap_def)
  from example_phases_fail obtain st st' where
    p: "parallel_phase_ondemand toy_bzip env_block1_fails [1, 0] example_files ''in'' 1025 1024
            \<lparr>blocks = replicate (nat 2) zero_block, compression_errors = 0, hp = example_heap\<rparr> = Inr st"
      "compression_errors st \<noteq> 0"
    and p': "parallel_phase_resident toy_bzip env_block1_fails [1, 0] (Some (1, 0)) 1025 1024
            \<lparr>blocks = replicate (nat 2) zero_block, compression_errors = 0, hp = example_heap\<rparr> = Inr st'"
      "compression_errors st' \<noteq> 0"
    by blast
  from failed_block_fails_the_run [OF s n example_heap_ok t,
      where bzip = toy_bzip and e = env_block1_fails and files = example_files and inp = "''in''"
        and fsz = 1025 and B = 1024 and st = st and st' = st' and fb = 1
        and contents = "replicate 1025 7" and outp = "''out''"]
    p p' c
  show ?thesis by blast
qed

lemma example_table_payloads:
  "\<forall>i < nat 2. payload_of example_table_heap (example_table ! i) = Some ((\<lambda>i. if i = 0 then [1, 2] else [3]) i)
      \<and> size_c (example_table ! i) = int (length ((\<lambda>i. if i = 0 then [1, 2] else [3 :: byte]) i))"
  by (simp add: all_less_2 payload_of_def load_def example_table_def example_table_heap_def)

lemma write_bzip2_file_example:
  "write_bzip2_file env_all_ok example_table_heap example_files ''out'' example_table 2 =
     Inr (0, example_files(''out'' \<mapsto> [1, 2, 3]))
   \<and> write_bzip2_file (env_all_ok\<lparr>fopen_out_ok := False\<rparr>) example_table_heap example_files ''out''
        example_table 2 = Inr (- 1, example_files)
   \<and> write_bzip2_file (env_all_ok\<lparr>fwrite_room := (\<lambda>i. if i = 1 then 0 else 4096)\<rparr>) example_table_heap
        example_files ''out'' example_table 2 = Inr (- 1, example_files(''out'' \<mapsto> [1, 2]))"
proof -
  note w = write_bzip2_file_stream [OF example_table_payloads, where files = example_files
      and outp = "''out''"]
  from w [of env_all_ok]
  have "write_bzip2_file env_all_ok example_table_heap example_files ''out'' example_table 2 =
     Inr (0, example_files(''out'' \<mapsto> [1, 2, 3]))"
    by (simp add: all_less_2 env_all_ok_def upt_rec)
  moreover from w [of "env_all_ok\<lparr>fopen_out_ok := False\<rparr>"]
  have "write_bzip2_file (env_all_ok\<lparr>fopen_out_ok := False\<rparr>) example_table_heap example_files ''out''
        example_table 2 = Inr (- 1, example_files)"
    by simp
  moreover from w [of "env_all_ok\<lparr>fwrite_room := (\<lambda>i. if i = 1 then 0 else 4096)\<rparr>" 1]
  have "write_bzip2_file (env_all_ok\<lparr>fwrite_room := (\<lambda>i. if i = 1 then 0 else 4096)\<rparr>) example_table_heap
        example_files ''out'' example_table 2 = Inr (- 1, example_files(''out'' \<mapsto> [1, 2]))"
    by (simp add: env_all_ok_def upt_rec)
  ultimately show ?thesis by simp
qed

text \<open>
  Claim C5 (the output of the writer is the exact concatenation of the payloads, and the
  writer fails when the target cannot be opened or a write is short): the writer checks
  the value of every \<^verbatim>\<open>fwrite\<close> and drops the value of \<^verbatim>\<open>fclose\<close>, the call that
  flushes the buffered stream.  On the example table, whose payloads are \<open>[1, 2]\<close> and
  \<open>[3]\<close>, with every \<^verbatim>\<open>fwrite\<close> taking its block and no room left in the file system,
  \<^verbatim>\<open>fclose\<close> returns \<^verbatim>\<open>EOF\<close>, the file is empty and the writer returns 0.  (What
  holds of the writer is in \<open>write_bzip2_file_stream\<close> and \<open>write_bzip2_file_flushed\<close>.)
\<close>

theorem write_bzip2_file_ignores_fclose:
  "payload_of example_table_heap (example_table ! 0) = Some [1, 2]
   \<and> payload_of example_table_heap (example_table ! 1) = Some [3]
   \<and> fclose (env_all_ok\<lparr>flush_room := 0\<rparr>) [1, 2, 3] = (EOF, [])
   \<and> write_bzip2_file (env_all_ok\<lparr>flush_room := 0\<rparr>) example_table_heap example_files ''out''
         example_table 2 = Inr (0, example_files(''out'' \<mapsto> []))"
  by (simp add: payload_of_def load_def example_table_def example_table_heap_def fclose_def
      write_bzip2_file_def fwrite_source_def env_all_ok_def write_loop.simps Let_def)

theorem nonpositive_block_size_rejected_witness:
  "main_resident toy_bzip env_all_ok [] [Opt_b 5, Opt_b 0] [''in'', ''out''] example_files =
     Inr (Invalid_block_size, example_files, empty_heap)
   \<and> main_ondemand toy_bzip env_all_ok [] [Opt_b 5, Opt_b 0] [''in'', ''out''] example_files =
     Inr (Invalid_block_size, example_files, empty_heap)
   \<and> (\<exists>x. exit_status x = 1
        \<and> main_resident toy_bzip env_all_ok [] [Opt_other, Opt_b 0] [''in'', ''out''] example_files =
            Inr (x, example_files, empty_heap)
        \<and> main_ondemand toy_bzip env_all_ok [] [Opt_other, Opt_b 0] [''in'', ''out''] example_files =
            Inr (x, example_files, empty_heap))
   \<and> parse_args [Opt_b 900] [''in'', ''out''] =
     Inr \<lparr>block_size_kb = 900, input_path = ''in'', output_path = ''out''\<rparr>"
proof -
  note t = nonpositive_block_size_rejected [where v = 0 and vs = "[5]" and rest = "[]"
      and opts = "[Opt_other, Opt_b 0]" and kb = 900 and bzip = toy_bzip and e = env_all_ok
      and sched = "[]" and operands = "[''in'', ''out'']" and files = example_files
      and inp = "''in''" and outp = "''out''"]
  have "(0::int) \<le> 0 \<and> (\<forall>w \<in> set [5::int]. 0 < w)" by simp
  moreover have "(0::int) \<le> 0 \<and> Opt_b 0 \<in> set [Opt_other, Opt_b 0]" by simp
  moreover have "(0::int) < 900" by simp
  ultimately show ?thesis using t by auto
qed

theorem missing_input_ondemand_completes_witness:
  "get_file_size example_files ''absent'' = - 1
   \<and> num_blocks_of (get_file_size example_files ''absent'') (BLOCK_SIZE_of 900) = 0
   \<and> (\<exists>h. pipeline_ondemand toy_bzip env_all_ok []
             \<lparr>block_size_kb = 900, input_path = ''absent'', output_path = ''out''\<rparr> example_files =
           Inr (Completed, example_files(''out'' \<mapsto> []), h))
   \<and> exit_status Completed = 0"
proof -
  have f: "example_files ''absent'' = None" by (simp add: example_files_def)
  have k: "(0::int) < 900" "(900::int) < 2 ^ 21" by simp_all
  have e: "calloc_ok env_all_ok" "fopen_out_ok env_all_ok" by (simp_all add: env_all_ok_def)
  have "num_blocks_of (get_file_size example_files ''absent'') (BLOCK_SIZE_of 900) = 0"
    by (simp add: get_file_size_def f num_blocks_of_def BLOCK_SIZE_of_def s32_def s64_def c_div_def)
  then have s: "is_schedule [] (num_blocks_of (get_file_size example_files ''absent'') (BLOCK_SIZE_of 900))"
    by (simp add: is_schedule_def)
  from missing_input_ondemand_completes [OF f k e s, of toy_bzip empty_heap "''out''"]
  show ?thesis by blast
qed

end
